theory Spec2Isabelle
  imports
    Main
    "HOL-Library.Word"
    "HOL-Library.Sublist"
    "HOL-Library.AList"
    "HOL-Library.Char_ord"
    "HOL-Library.List_Lexorder"
    "HOL-Library.Multiset"
begin

section \<open>Go strings\<close>

text \<open>
  A Go string is a sequence of bytes, here a \<open>char list\<close>. The functions of package
  \<open>strings\<close> that \<open>main.go\<close> calls are written out on byte lists as the Go library
  defines them: \<open>HasPrefix(s, p)\<close> is \<open>len(s) >= len(p) && s[:len(p)] == p\<close>, and
  likewise for suffixes.
\<close>

definition HasPrefix :: "string \<Rightarrow> string \<Rightarrow> bool" where
  "HasPrefix s pre = (length pre \<le> length s \<and> take (length pre) s = pre)"

definition HasSuffix :: "string \<Rightarrow> string \<Rightarrow> bool" where
  "HasSuffix s suf = (length suf \<le> length s \<and> drop (length s - length suf) s = suf)"

definition TrimSuffix :: "string \<Rightarrow> string \<Rightarrow> string" where
  "TrimSuffix s suf = (if HasSuffix s suf then take (length s - length suf) s else s)"

definition TrimPrefix :: "string \<Rightarrow> string \<Rightarrow> string" where
  "TrimPrefix s pre = (if HasPrefix s pre then drop (length pre) s else s)"

fun Contains :: "string \<Rightarrow> string \<Rightarrow> bool" where
  "Contains [] sub = (sub = [])"
| "Contains (c # cs) sub = (HasPrefix (c # cs) sub \<or> Contains cs sub)"

text \<open>
  \<open>ReplaceAll(s, old, new)\<close> for a non-empty \<open>old\<close>: the non-overlapping occurrences
  of \<open>old\<close> are replaced from the left. (The program calls it with \<open>old = ","\<close> only;
  for an empty \<open>old\<close> this model returns \<open>s\<close>.)
\<close>

function ReplaceAll :: "string \<Rightarrow> string \<Rightarrow> string \<Rightarrow> string" where
  "ReplaceAll [] old new = []"
| "ReplaceAll (c # cs) old new =
     (if old \<noteq> [] \<and> HasPrefix (c # cs) old
      then new @ ReplaceAll (drop (length old) (c # cs)) old new
      else c # ReplaceAll cs old new)"
  by pat_completeness auto
termination
  by (relation "measure (\<lambda>(s, old, new). length s)") (auto simp: HasPrefix_def)

section \<open>Directory trees\<close>

text \<open>
  \<open>type Dir struct\<close>. The program handles directories through pointers, and two map
  entries or two \<open>Parent\<close> fields may point to one object. \<open>Path\<close>, \<open>Name\<close> and \<open>Parent\<close>
  are written once, when the object is built, and never again: a pointer \<open>*Dir\<close> is the
  address of the object together with these three fields. \<open>Children\<close> and \<open>Synced\<close> are
  assigned through pointers later: they live in the heap, at the address.
\<close>

datatype Dir = Dir (addr: nat) (Path: string) (Name: string) (Parent: "Dir option")

record DirFields =
  Children :: "(string \<times> Dir) list"
  Synced :: bool

type_synonym heap = "DirFields list"

type_synonym pathMap = "(string \<times> Dir) list"

text \<open>
  The four statements both tree builders run for a directory: build \<open>item\<close> at a fresh
  address, enter it in the \<open>Children\<close> of its parent if that is not \<open>nil\<close>, and store it
  in \<open>pathMap\<close> under its path (replacing what was there).
\<close>

definition addItem :: "string \<Rightarrow> string \<Rightarrow> Dir option \<Rightarrow> bool \<Rightarrow> pathMap \<times> heap \<Rightarrow> pathMap \<times> heap" where
  "addItem path name parent synced st =
     (case st of (pathMap, h) \<Rightarrow>
        let item = Dir (length h) path name parent;
            h1 = h @ [\<lparr>Children = [], Synced = synced\<rparr>];
            h2 = (case parent of
                    None \<Rightarrow> h1
                  | Some p \<Rightarrow>
                      h1[addr p := (h1 ! addr p)\<lparr>Children :=
                           AList.update name item (Children (h1 ! addr p))\<rparr>])
        in (AList.update path item pathMap, h2))"

text \<open>
  \<open>func buildLocalTree\<close>. \<open>filepath.WalkDir\<close> calls the function literal once per
  entry, with a non-nil \<open>err\<close> (\<open>WalkFailed\<close>) or with the entry's path, whether it is a
  directory, and its name; it stops at the first error the literal returns.
  \<open>filepath.Dir\<close> is the parameter \<open>filepathDir\<close>; the first argument of
  \<open>buildLocalTree\<close> is the result of \<open>filepath.Abs\<close>.
\<close>

datatype walkItem = WalkFailed string | Entry string bool string

fun walkDir :: "(string \<Rightarrow> string) \<Rightarrow> string \<Rightarrow> walkItem list \<Rightarrow> pathMap \<times> heap
    \<Rightarrow> string + pathMap \<times> heap" where
  "walkDir filepathDir dir [] st = Inr st"
| "walkDir filepathDir dir (WalkFailed err # rest) st = Inl (''walk dir item: '' @ err)"
| "walkDir filepathDir dir (Entry path isDir name # rest) st =
     (if isDir then
        (let path1 = TrimPrefix path dir;
             path2 = (if \<not> HasPrefix path1 ''/'' then ''/'' @ path1 else path1)
         in walkDir filepathDir dir rest
              (addItem path2 name (map_of (fst st) (filepathDir path2)) False st))
      else walkDir filepathDir dir rest st)"

definition buildLocalTree :: "(string \<Rightarrow> string) \<Rightarrow> string + string \<Rightarrow> walkItem list
    \<Rightarrow> string + pathMap \<times> heap" where
  "buildLocalTree filepathDir absDir items =
     (case absDir of
        Inl err \<Rightarrow> Inl (''abs path: '' @ err)
      | Inr dir \<Rightarrow>
          (case walkDir filepathDir dir items ([], []) of
             Inl err \<Rightarrow> Inl (''walk dir: '' @ err)
           | Inr tree \<Rightarrow> Inr tree))"

text \<open>
  \<open>func buildRemoteTree\<close>. What the \<open>ssh\<close> command does is an input: one of the two
  pipes or the start fails, or the command runs, prints its lines, and \<open>cmd.Wait\<close>
  returns an error or \<open>nil\<close>.
\<close>

datatype lsRun =
    StdoutPipeFailed string
  | StderrPipeFailed string
  | StartFailed string
  | Ran "string list" "string option"

text \<open>The loop \<open>for scanner.Scan() { ... }\<close> over the lines.\<close>

fun scanLines :: "(string \<Rightarrow> string) \<Rightarrow> (string \<Rightarrow> string) \<Rightarrow> string list \<Rightarrow> pathMap \<times> heap
    \<Rightarrow> pathMap \<times> heap" where
  "scanLines filepathDir filepathBase [] st = st"
| "scanLines filepathDir filepathBase (path # rest) st =
     scanLines filepathDir filepathBase rest
       (addItem path (filepathBase path) (map_of (fst st) (filepathDir path)) True st)"

text \<open>The closure \<open>setNotSynced\<close>: it follows \<open>Parent\<close> until \<open>nil\<close>.\<close>

fun setNotSynced :: "Dir \<Rightarrow> heap \<Rightarrow> heap" where
  "setNotSynced (Dir a path name parent) h =
     (let h' = h[a := (h ! a)\<lparr>Synced := False\<rparr>]
      in case parent of None \<Rightarrow> h' | Some p \<Rightarrow> setNotSynced p h')"

text \<open>
  The loop \<open>for path, item := range pathMap { ... }\<close>, over the entries in the order the
  run-time system enumerates them.
\<close>

fun rangeNotSynced :: "pathMap \<Rightarrow> pathMap \<Rightarrow> heap \<Rightarrow> heap" where
  "rangeNotSynced localPathMap [] h = h"
| "rangeNotSynced localPathMap ((path, item) # rest) h =
     rangeNotSynced localPathMap rest
       (if map_of localPathMap path = None then setNotSynced item h else h)"

definition buildRemoteTree :: "(string \<Rightarrow> string) \<Rightarrow> (string \<Rightarrow> string) \<Rightarrow> lsRun \<Rightarrow> pathMap
    \<Rightarrow> string + pathMap \<times> heap" where
  "buildRemoteTree filepathDir filepathBase run localPathMap =
     (case run of
        StdoutPipeFailed err \<Rightarrow> Inl (''get stdout pipe: '' @ err)
      | StderrPipeFailed err \<Rightarrow> Inl (''get stdout pipe: '' @ err)
      | StartFailed err \<Rightarrow> Inl (''start command: '' @ err)
      | Ran lines waitErr \<Rightarrow>
          (case scanLines filepathDir filepathBase lines ([], []) of
             (pathMap, h) \<Rightarrow>
               (case waitErr of
                  Some err \<Rightarrow> Inl (''wait command: '' @ err)
                | None \<Rightarrow> Inr (pathMap, rangeNotSynced localPathMap pathMap h))))"

text \<open>
  \<open>filepath.Dir\<close> and \<open>filepath.Base\<close> on a path that is already clean (no doubled or
  trailing slash, no \<open>.\<close> or \<open>..\<close> element), for concrete runs: the part before the last
  slash, or \<open>/\<close> if that is empty; and the part after it.
\<close>

definition cleanDir :: "string \<Rightarrow> string" where
  "cleanDir p =
     (if CHR ''/'' \<notin> set p then ''.''
      else let d = rev (tl (dropWhile (\<lambda>c. c \<noteq> CHR ''/'') (rev p)))
           in if d = [] then ''/'' else d)"

definition cleanBase :: "string \<Rightarrow> string" where
  "cleanBase p =
     (let b = rev (takeWhile (\<lambda>c. c \<noteq> CHR ''/'') (rev p))
      in if b \<noteq> [] then b else if p = [] then ''.'' else ''/'')"

text \<open>\<open>type SyncResult struct\<close>, the view of a job that \<open>ListSyncs\<close> returns.\<close>

record 'u SyncResult =
  Path :: string
  Progress :: 'u
  Speed :: 'u
  Downloaded :: 'u
  TimeLeft :: string

section \<open>Jobs and the registry\<close>

text \<open>
  \<open>type Sync struct\<close>. The numeric fields have Go type \<open>uint\<close>, a machine word whose
  width depends on the platform: the record is polymorphic in the field type, and the
  functions below use it at \<open>'w word\<close>. \<open>Context\<close> and \<open>Cancel\<close> are the two ends of one
  cancellation handle; \<open>Cancelled\<close> says whether \<open>Cancel\<close> has been called, that is,
  whether \<open>Context.Done()\<close> is closed.
\<close>

record 'u Sync =
  Path :: string
  Progress :: 'u
  Speed :: 'u
  Downloaded :: 'u
  TimeLeft :: string
  Cancelled :: bool

text \<open>
  \<open>syncStorage.Data\<close>, a \<open>map[string]*Sync\<close>, as an association list. Every function
  of the program takes the mutex for its whole body, so each is one atomic step on the
  map. \<open>system\<close> adds the goroutines running \<open>startSync\<close>, each named by the path of the
  job it was launched for.
\<close>

type_synonym 'u syncStorage = "(string \<times> 'u Sync) list"

record 'u system =
  runningSyncs :: "'u syncStorage"
  tasks :: "string list"

text \<open>
  The loop shared by \<open>sync\<close> and \<open>remove\<close>:
  \<^verbatim>\<open>for _, value := range runningSyncs.Data { if value.Path == path || ... { return false } }\<close>.
  \<open>scanOverlap\<close> is \<open>True\<close> when the loop leaves through its \<open>return false\<close>.
\<close>

fun scanOverlap :: "'u syncStorage \<Rightarrow> string \<Rightarrow> bool" where
  "scanOverlap [] path = False"
| "scanOverlap ((k, value) # rest) path =
     (if Sync.Path value = path \<or> HasPrefix (Sync.Path value) path
         \<or> HasPrefix path (Sync.Path value)
      then True
      else scanOverlap rest path)"

definition newSync :: "string \<Rightarrow> ('w::len) word Sync" where
  "newSync path =
     \<lparr>Path = path, Progress = 0, Speed = 0, Downloaded = 0, TimeLeft = [], Cancelled = False\<rparr>"

text \<open>\<open>func sync\<close>: the result and the system after it.\<close>

definition sync :: "('w::len) word system \<Rightarrow> string \<Rightarrow> bool \<times> 'w word system" where
  "sync st path =
     (if scanOverlap (runningSyncs st) path then (False, st)
      else (True, st\<lparr>runningSyncs := AList.update path (newSync path) (runningSyncs st),
                      tasks := path # tasks st\<rparr>))"

text \<open>
  \<open>func remove\<close>. The file system is a value of any type \<open>'fs\<close>; \<open>os.RemoveAll\<close> and
  \<open>filepath.Join\<close> are parameters. \<open>RemoveAll target fs\<close> gives the error, if any, and
  the file system it leaves. The result is the pair the Go function returns, and the file
  system.
\<close>

definition remove ::
  "(string \<Rightarrow> 'fs \<Rightarrow> string option \<times> 'fs) \<Rightarrow> (string \<Rightarrow> string \<Rightarrow> string) \<Rightarrow> string
    \<Rightarrow> 'u syncStorage \<Rightarrow> string \<Rightarrow> 'fs \<Rightarrow> (bool \<times> string option) \<times> 'fs" where
  "remove RemoveAll Join DataPath data path fs =
     (if scanOverlap data path then ((False, None), fs)
      else (case RemoveAll (Join DataPath path) fs of
              (Some err, fs') \<Rightarrow> ((False, Some (''remove all: '' @ err)), fs')
            | (None, fs') \<Rightarrow> ((True, None), fs')))"

section \<open>The progress reader\<close>

text \<open>
  The body of the loop over the words of rsync's standard output. \<open>strconv.Atoi\<close>
  returns a Go \<open>int\<close>, a signed word of the width of \<open>uint\<close>, so \<open>uint(v)\<close> keeps the
  bits; \<open>units.FromHumanSize\<close> returns an \<open>int64\<close>, which \<open>uint(v)\<close> sign-extends or
  truncates to the width of \<open>uint\<close>. Both parsers are parameters: \<open>None\<close> is a non-nil
  \<open>err\<close>.
\<close>

definition processToken ::
  "(string \<Rightarrow> ('w::len) word option) \<Rightarrow> (string \<Rightarrow> 64 word option)
    \<Rightarrow> 'w word Sync \<Rightarrow> string \<Rightarrow> 'w word Sync" where
  "processToken atoi fromHumanSize currentSync text =
     (if HasSuffix text ''%'' then
        (case atoi (TrimSuffix text ''%'') of
           None \<Rightarrow> currentSync
         | Some v \<Rightarrow> currentSync\<lparr>Progress := v\<rparr>)
      else if HasSuffix text ''/s'' then
        (case fromHumanSize (TrimSuffix text ''/s'') of
           None \<Rightarrow> currentSync
         | Some v \<Rightarrow> currentSync\<lparr>Speed := scast v\<rparr>)
      else if Contains text '':'' then currentSync\<lparr>TimeLeft := text\<rparr>
      else
        (case atoi (ReplaceAll text '','' []) of
           None \<Rightarrow> currentSync
         | Some v \<Rightarrow> currentSync\<lparr>Downloaded := v\<rparr>))"

text \<open>The reader's loop, \<open>for scanner.Scan() { ... }\<close>, over the words it reads.\<close>

fun progressReader ::
  "(string \<Rightarrow> ('w::len) word option) \<Rightarrow> (string \<Rightarrow> 64 word option)
    \<Rightarrow> 'w word Sync \<Rightarrow> string list \<Rightarrow> 'w word Sync" where
  "progressReader atoi fromHumanSize currentSync [] = currentSync"
| "progressReader atoi fromHumanSize currentSync (text # rest) =
     progressReader atoi fromHumanSize (processToken atoi fromHumanSize currentSync text) rest"

section \<open>The supervisor of one job\<close>

text \<open>
  What a goroutine of the program does to the outside, as a trace of events.
\<close>

datatype event =
    LogError string
  | CancelContext
  | GoWatcher
  | GoStderrReader
  | GoProgressReader
  | RunRsync
  | SignalSIGTERM
  | SleepSeconds nat

text \<open>
  The results of the calls \<open>startSync\<close> makes to the operating system: the errors of
  \<open>os.MkdirAll\<close>, \<open>cmd.StderrPipe\<close>, \<open>cmd.StdoutPipe\<close> and \<open>cmd.Run\<close> (\<open>None\<close> is
  \<open>nil\<close>).
\<close>

record rsyncEnv =
  MkdirAllErr :: "string option"
  StderrPipeErr :: "string option"
  StdoutPipeErr :: "string option"
  RunErr :: "string option"

text \<open>The body of \<open>startSync\<close> with its three early returns.\<close>

definition startSyncBody :: "rsyncEnv \<Rightarrow> event list" where
  "startSyncBody env =
     (case MkdirAllErr env of
        Some err \<Rightarrow> [LogError ''create path failed'', CancelContext]
      | None \<Rightarrow>
          GoWatcher #
          (case StderrPipeErr env of
             Some err \<Rightarrow> [LogError ''stderr pipe'']
           | None \<Rightarrow>
               GoStderrReader #
               (case StdoutPipeErr env of
                  Some err \<Rightarrow> [LogError ''get stdout pipe'']
                | None \<Rightarrow>
                    GoProgressReader # RunRsync #
                    (case RunErr env of
                       Some err \<Rightarrow> [LogError ''wait command'']
                     | None \<Rightarrow> []))))"

text \<open>
  \<open>startSync\<close>: the body, then the deferred function, which runs on every return and
  deletes \<open>currentSync.Path\<close> from the map as it is at that moment; the goroutine is
  then over.
\<close>

definition startSync ::
  "rsyncEnv \<Rightarrow> 'u Sync \<Rightarrow> 'u system \<Rightarrow> event list \<times> 'u system" where
  "startSync env currentSync st =
     (startSyncBody env,
      st\<lparr>runningSyncs := AList.delete (Sync.Path currentSync) (runningSyncs st),
         tasks := remove1 (Sync.Path currentSync) (tasks st)\<rparr>)"

text \<open>
  Contexts. \<open>context.WithCancel(parent)\<close> gives a new context and its cancel function,
  named here by a number; a context is done once its own cancel function has been
  called or its parent is done. The set \<open>called\<close> holds the cancel functions called so
  far.
\<close>

datatype Context = Background | WithCancel nat Context

fun ctxDone :: "nat set \<Rightarrow> Context \<Rightarrow> bool" where
  "ctxDone called Background = False"
| "ctxDone called (WithCancel cancel parent) = (cancel \<in> called \<or> ctxDone called parent)"

text \<open>
  What the supervisor of one job holds. \<open>sync\<close> derives the job's context from the
  server's (\<open>ctx, cancel := context.WithCancel(ctx)\<close>), stores it with its cancel
  function in the job (\<open>Context\<close>, \<open>Cancel\<close>) and passes that same \<open>ctx\<close> to
  \<open>startSync\<close>; \<open>startSync\<close> derives from its argument the context it gives to
  \<open>exec.CommandContext\<close>, and the watcher keeps the cancel function of this second
  context. \<open>cmd.Process\<close> is a pointer, \<open>nil\<close> until the process has been started.
\<close>

record Process =
  Pid :: int

record supervised =
  jobContext :: Context
  execContext :: Context
  execCancel :: nat
  cmdProcess :: "Process option"

definition supervise :: "Context \<Rightarrow> nat \<Rightarrow> nat \<Rightarrow> Process option \<Rightarrow> supervised" where
  "supervise ctx jobCancel cancel process =
     (let ctx = WithCancel jobCancel ctx;
          execCtx = WithCancel cancel ctx
      in \<lparr>jobContext = ctx, execContext = execCtx, execCancel = cancel, cmdProcess = process\<rparr>)"

text \<open>
  Package \<open>os/exec\<close> kills a command that has been started as soon as the context given
  to \<open>exec.CommandContext\<close> is done.
\<close>

definition killedByExec :: "nat set \<Rightarrow> supervised \<Rightarrow> bool" where
  "killedByExec called s = (cmdProcess s \<noteq> None \<and> ctxDone called (execContext s))"

text \<open>
  The watcher goroutine. It is blocked on \<open><-currentSync.Context.Done()\<close> until the
  job's context is done; then it reads \<open>cmd.Process.Pid\<close>, which is a run-time panic
  when \<open>cmd.Process\<close> is \<open>nil\<close>. The second argument is the error of
  \<open>cmd.Process.Signal\<close>, non-nil for a process that has already exited. The result
  carries the events and the cancel functions called afterwards: the last statement,
  \<open>cancel()\<close>, calls the one of the command's context.
\<close>

datatype fault = NilPointerDereference

datatype watcherRun = Blocked | Panicked fault | Returned "event list" "nat set"

definition watcher :: "supervised \<Rightarrow> string option \<Rightarrow> nat set \<Rightarrow> watcherRun" where
  "watcher s signalErr called =
     (if \<not> ctxDone called (jobContext s) then Blocked
      else case cmdProcess s of
             None \<Rightarrow> Panicked NilPointerDereference
           | Some p \<Rightarrow>
               if Pid p \<noteq> - 1 then
                 Returned
                   (SignalSIGTERM #
                    (case signalErr of Some err \<Rightarrow> [LogError ''terminate err''] | None \<Rightarrow> []) @
                    [SleepSeconds 5, CancelContext])
                   (insert (execCancel s) called)
               else Returned [] called)"

section \<open>The handlers on the registry\<close>

datatype response =
    OK
  | BadRequest string
  | Conflict string
  | HandlerError string

text \<open>
  \<open>func CancelSync\<close>. The first argument is the result of \<open>c.Bind(request)\<close>: an error
  or the path of the request.
\<close>

definition CancelSync :: "string + string \<Rightarrow> 'u system \<Rightarrow> response \<times> 'u system" where
  "CancelSync bind st =
     (case bind of
        Inl err \<Rightarrow> (HandlerError (''load request: '' @ err), st)
      | Inr path \<Rightarrow>
          (OK, st\<lparr>runningSyncs :=
                    AList.map_entry path (\<lambda>currentSync. currentSync\<lparr>Cancelled := True\<rparr>)
                      (runningSyncs st)\<rparr>))"

text \<open>
  The states the registry can be in: it starts empty; \<open>sync\<close> is called with any path;
  the progress reader of a job parses a word, with whatever the two parsers return, and
  writes to the job it holds a pointer to; a cancel request arrives; a goroutine running
  \<open>startSync\<close> returns.
\<close>

inductive reachable :: "('w::len) word system \<Rightarrow> bool" where
  init: "reachable \<lparr>runningSyncs = [], tasks = []\<rparr>"
| start: "reachable st \<Longrightarrow> reachable (snd (sync st path))"
| token: "reachable st \<Longrightarrow> path \<in> set (tasks st) \<Longrightarrow>
    reachable (st\<lparr>runningSyncs :=
      AList.map_entry path (\<lambda>currentSync. processToken atoi fromHumanSize currentSync text)
        (runningSyncs st)\<rparr>)"
| cancel: "reachable st \<Longrightarrow> reachable (snd (CancelSync bind st))"
| finish: "reachable st \<Longrightarrow> Sync.Path currentSync \<in> set (tasks st) \<Longrightarrow>
    reachable (snd (startSync env currentSync st))"

text \<open>
  \<open>func ListSyncs\<close>. \<open>sort.Slice\<close> is a parameter: the library promises a sorted
  permutation and no more (the sort is not stable).
\<close>

definition ListSyncs ::
  "(('u SyncResult \<Rightarrow> 'u SyncResult \<Rightarrow> bool) \<Rightarrow> 'u SyncResult list \<Rightarrow> 'u SyncResult list)
    \<Rightarrow> 'u syncStorage \<Rightarrow> 'u SyncResult list" where
  "ListSyncs sortSlice data =
     sortSlice (\<lambda>a b. SyncResult.Path a > SyncResult.Path b)
       (map (\<lambda>(k, value).
              \<lparr>SyncResult.Path = Sync.Path value,
               SyncResult.Progress = Sync.Progress value,
               SyncResult.Speed = Sync.Speed value,
               SyncResult.Downloaded = Sync.Downloaded value,
               SyncResult.TimeLeft = Sync.TimeLeft value\<rparr>) data)"

text \<open>
  \<open>func StartSync\<close>. The inputs are the result of \<open>c.Bind\<close> and what the remote
  listing command does; the tree is built against the empty local map
  \<open>map[string]*Dir{}\<close>.
\<close>

definition StartSync ::
  "(string \<Rightarrow> string) \<Rightarrow> (string \<Rightarrow> string) \<Rightarrow> string + string \<Rightarrow> lsRun
    \<Rightarrow> ('w::len) word system \<Rightarrow> response \<times> 'w word system" where
  "StartSync filepathDir filepathBase bind run st =
     (case bind of
        Inl err \<Rightarrow> (HandlerError (''load request: '' @ err), st)
      | Inr path \<Rightarrow>
          (case buildRemoteTree filepathDir filepathBase run [] of
             Inl err \<Rightarrow> (HandlerError (''list remote: '' @ err), st)
           | Inr (remotePath, h) \<Rightarrow>
               if map_of remotePath path = None then (BadRequest ''invalid path'', st)
               else (case sync st path of
                       (True, st') \<Rightarrow> (OK, st')
                     | (False, st') \<Rightarrow> (Conflict ''sync already started'', st'))))"

text \<open>
  \<open>func Remove\<close>. The inputs are the result of \<open>c.Bind\<close>, what \<open>filepath.Abs\<close> and the
  walk of the data directory give, the registry and the file system; the result is the
  response and the file system afterwards.
\<close>

definition Remove ::
  "(string \<Rightarrow> 'fs \<Rightarrow> string option \<times> 'fs) \<Rightarrow> (string \<Rightarrow> string \<Rightarrow> string) \<Rightarrow> string
    \<Rightarrow> (string \<Rightarrow> string) \<Rightarrow> string + string \<Rightarrow> string + string \<Rightarrow> walkItem list
    \<Rightarrow> 'u syncStorage \<Rightarrow> 'fs \<Rightarrow> response \<times> 'fs" where
  "Remove RemoveAll Join DataPath filepathDir bind absDir items data fs =
     (case bind of
        Inl err \<Rightarrow> (HandlerError (''load request: '' @ err), fs)
      | Inr path \<Rightarrow>
          (case buildLocalTree filepathDir absDir items of
             Inl err \<Rightarrow> (HandlerError (''list local: '' @ err), fs)
           | Inr (localPath, h) \<Rightarrow>
               if map_of localPath path = None then (BadRequest ''invalid path'', fs)
               else (case remove RemoveAll Join DataPath data path fs of
                       ((ok, Some err), fs') \<Rightarrow> (HandlerError (''remove path: '' @ err), fs')
                     | ((True, None), fs') \<Rightarrow> (OK, fs')
                     | ((False, None), fs') \<Rightarrow> (Conflict ''sync in progress'', fs'))))"

text \<open>
  A sorting function to put in the place of \<open>sort.Slice\<close> in concrete runs: insertion
  sort by \<open>lt\<close>.
\<close>

fun insertBy :: "('a \<Rightarrow> 'a \<Rightarrow> bool) \<Rightarrow> 'a \<Rightarrow> 'a list \<Rightarrow> 'a list" where
  "insertBy lt x [] = [x]"
| "insertBy lt x (y # ys) = (if lt y x then y # insertBy lt x ys else x # y # ys)"

fun insertionSort :: "('a \<Rightarrow> 'a \<Rightarrow> bool) \<Rightarrow> 'a list \<Rightarrow> 'a list" where
  "insertionSort lt [] = []"
| "insertionSort lt (x # xs) = insertBy lt x (insertionSort lt xs)"

section \<open>The parser of the Go library, for concrete runs\<close>

text \<open>
  \<open>strconv.Atoi(s)\<close> is \<open>ParseInt(s, 10, 0)\<close>: an optional sign, then one or more
  decimal digits and nothing else; the value must fit a signed word of the width of
  \<open>int\<close>, else the error is non-nil. The functions of the program take the parser as a
  parameter; this one is what the standard library puts there.
\<close>

definition isDigit :: "char \<Rightarrow> bool" where
  "isDigit c = (CHR ''0'' \<le> c \<and> c \<le> CHR ''9'')"

definition digitsValue :: "string \<Rightarrow> nat" where
  "digitsValue ds = foldl (\<lambda>n c. 10 * n + (of_char c - 48)) 0 ds"

definition Atoi :: "string \<Rightarrow> ('w::len) word option" where
  "Atoi s =
     (let neg = (s \<noteq> [] \<and> hd s = CHR ''-'');
          ds = (if s \<noteq> [] \<and> (hd s = CHR ''+'' \<or> hd s = CHR ''-'') then tl s else s);
          n = digitsValue ds
      in if ds = [] \<or> \<not> list_all isDigit ds then None
         else if neg then (if n \<le> 2 ^ (LENGTH('w) - 1) then Some (- word_of_nat n) else None)
         else (if n < 2 ^ (LENGTH('w) - 1) then Some (word_of_nat n) else None))"

section \<open>Invariants and the notions the properties are stated with\<close>

text \<open>The keys of a Go map held as an association list.\<close>

definition keys :: "('k \<times> 'v) list \<Rightarrow> 'k set" where
  "keys al = fst ` set al"

text \<open>
  What holds of the registry in every state the program can reach: the keys are distinct,
  every job is stored under its own path, no key is a prefix of another, and the
  registered paths are exactly the paths of the goroutines that have not returned.
\<close>

definition registryInv :: "'u system \<Rightarrow> bool" where
  "registryInv st =
     (distinct (map fst (runningSyncs st)) \<and>
      (\<forall>(k, v) \<in> set (runningSyncs st). Sync.Path v = k) \<and>
      (\<forall>p \<in> keys (runningSyncs st). \<forall>q \<in> keys (runningSyncs st).
          p \<noteq> q \<longrightarrow> \<not> prefix p q \<and> \<not> prefix q p) \<and>
      set (tasks st) = keys (runningSyncs st) \<and> distinct (tasks st))"

text \<open>The view of one job, as \<open>ListSyncs\<close> builds it.\<close>

definition view :: "'u Sync \<Rightarrow> 'u SyncResult" where
  "view value =
     \<lparr>SyncResult.Path = Sync.Path value, SyncResult.Progress = Sync.Progress value,
      SyncResult.Speed = Sync.Speed value, SyncResult.Downloaded = Sync.Downloaded value,
      SyncResult.TimeLeft = Sync.TimeLeft value\<rparr>"

text \<open>
  What package \<open>sort\<close> promises of \<open>sort.Slice(x, less)\<close>: the elements are permuted,
  and afterwards no element is \<open>less\<close> than one that precedes it.
\<close>

definition sortContract :: "(('a \<Rightarrow> 'a \<Rightarrow> bool) \<Rightarrow> 'a list \<Rightarrow> 'a list) \<Rightarrow> ('a \<Rightarrow> 'a \<Rightarrow> bool) \<Rightarrow> bool" where
  "sortContract sortSlice lt =
     (\<forall>xs. mset (sortSlice lt xs) = mset xs \<and> sorted_wrt (\<lambda>a b. \<not> lt b a) (sortSlice lt xs))"

text \<open>
  A listing is parent-before-child when every path occurs once and no path is followed,
  later in the stream, by its own parent directory.
\<close>

fun parentBeforeChild :: "(string \<Rightarrow> string) \<Rightarrow> string list \<Rightarrow> bool" where
  "parentBeforeChild filepathDir [] = True"
| "parentBeforeChild filepathDir (path # rest) =
     (path \<notin> set rest \<and> filepathDir path \<notin> set rest \<and> parentBeforeChild filepathDir rest)"

text \<open>
  \<open>onChain filepathDir listed q p\<close>: \<open>p\<close> is \<open>q\<close> itself or lies on the chain of
  parent directories of \<open>q\<close>, followed upwards for as long as the parent is listed (the
  directory \<open>/\<close> is its own \<open>filepath.Dir\<close> and ends the chain).
\<close>

inductive onChain :: "(string \<Rightarrow> string) \<Rightarrow> string set \<Rightarrow> string \<Rightarrow> string \<Rightarrow> bool"
  for filepathDir :: "string \<Rightarrow> string" and listed :: "string set" where
  self: "onChain filepathDir listed q q"
| up: "filepathDir q \<in> listed \<Longrightarrow> filepathDir q \<noteq> q \<Longrightarrow>
       onChain filepathDir listed (filepathDir q) p \<Longrightarrow> onChain filepathDir listed q p"

text \<open>The objects \<open>setNotSynced\<close> visits from a pointer.\<close>

fun chainDirs :: "Dir \<Rightarrow> Dir list" where
  "chainDirs (Dir a path name parent) =
     Dir a path name parent # (case parent of None \<Rightarrow> [] | Some p \<Rightarrow> chainDirs p)"

text \<open>
  What the scan loop maintains on a parent-before-child listing: the entries of
  \<open>pathMap\<close> are in the order of the lines, the object of the \<open>i\<close>-th line is at address
  \<open>i\<close> and carries its path, and its \<open>Parent\<close> is what \<open>pathMap\<close> holds for its parent
  directory.
\<close>

definition treeInv :: "(string \<Rightarrow> string) \<Rightarrow> pathMap \<times> heap \<Rightarrow> bool" where
  "treeInv filepathDir st =
     (case st of (pathMap, h) \<Rightarrow>
        distinct (map fst pathMap) \<and> length h = length pathMap \<and>
        (\<forall>i < length pathMap.
           addr (snd (pathMap ! i)) = i \<and>
           Dir.Path (snd (pathMap ! i)) = fst (pathMap ! i) \<and>
           Parent (snd (pathMap ! i)) =
             (if filepathDir (fst (pathMap ! i)) = fst (pathMap ! i) then None
              else map_of pathMap (filepathDir (fst (pathMap ! i))))))"

section \<open>The registry: overlap scan, insertion, invariant\<close>

lemma HasPrefix_iff_prefix: "HasPrefix s pre \<longleftrightarrow> prefix pre s"
  unfolding HasPrefix_def prefix_def
  by (metis append_eq_conv_conj append_take_drop_id length_append le_add1)

lemma scanOverlap_iff:
  "scanOverlap data path \<longleftrightarrow>
     (\<exists>v \<in> snd ` set data. Sync.Path v = path \<or> prefix path (Sync.Path v) \<or> prefix (Sync.Path v) path)"
  by (induction data path rule: scanOverlap.induct) (auto simp: HasPrefix_iff_prefix)

lemma processToken_Path [simp]:
  "Sync.Path (processToken atoi fromHumanSize currentSync text) = Sync.Path currentSync"
  by (simp add: processToken_def split: option.splits)

lemma keys_update: "keys (AList.update k v al) = insert k (keys al)"
  by (simp add: keys_def dom_update)

lemma keys_delete: "keys (AList.delete k al) = keys al - {k}"
  by (auto simp: keys_def AList.delete_eq)

lemma keys_map_entry: "keys (AList.map_entry k f al) = keys al"
  by (simp add: keys_def dom_map_entry)

lemma set_update_subset: "set (AList.update k v al) \<subseteq> insert (k, v) (set al)"
  by (induction al) auto

lemma set_delete_subset: "set (AList.delete k al) \<subseteq> set al"
  by (auto simp: AList.delete_eq)

lemma set_map_entry_subset:
  "set (AList.map_entry k f al) \<subseteq> set al \<union> {(k, f v) | v. (k, v) \<in> set al}"
  by (induction al) auto

lemma values_Path_keys:
  assumes "\<forall>(k, v) \<in> set data. Sync.Path v = k"
  shows "Sync.Path ` snd ` set data = keys data"
  using assms unfolding keys_def by force

lemma scanOverlap_keys:
  assumes "registryInv st"
  shows "scanOverlap (runningSyncs st) path \<longleftrightarrow>
     (\<exists>q \<in> keys (runningSyncs st). q = path \<or> prefix q path \<or> prefix path q)"
proof -
  have "Sync.Path ` snd ` set (runningSyncs st) = keys (runningSyncs st)"
    using assms values_Path_keys unfolding registryInv_def by blast
  then show ?thesis unfolding scanOverlap_iff by (metis (no_types, lifting) image_iff)
qed

lemma registryInv_init: "registryInv \<lparr>runningSyncs = [], tasks = []\<rparr>"
  by (simp add: registryInv_def keys_def)

lemma registryInv_sync:
  assumes "registryInv st"
  shows "registryInv (snd (sync st path))"
proof (cases "scanOverlap (runningSyncs st) path")
  case True
  then show ?thesis using assms by (simp add: sync_def)
next
  case False
  then have no: "\<forall>q \<in> keys (runningSyncs st). q \<noteq> path \<and> \<not> prefix q path \<and> \<not> prefix path q"
    using scanOverlap_keys [OF assms] by blast
  have new: "Sync.Path (newSync path :: 'a word Sync) = path" by (simp add: newSync_def)
  have vals: "\<forall>(k, v) \<in> set (AList.update path (newSync path) (runningSyncs st)). Sync.Path v = k"
    using assms new set_update_subset [of path "newSync path" "runningSyncs st"]
    unfolding registryInv_def by auto
  show ?thesis
    using False assms no vals unfolding registryInv_def sync_def
    by (simp add: keys_update distinct_update) blast
qed

lemma registryInv_map_entry:
  assumes "registryInv st" "\<And>v. Sync.Path (f v) = Sync.Path v"
  shows "registryInv (st\<lparr>runningSyncs := AList.map_entry path f (runningSyncs st)\<rparr>)"
proof -
  have old: "\<And>k v. (k, v) \<in> set (runningSyncs st) \<Longrightarrow> Sync.Path v = k"
    using assms(1) unfolding registryInv_def by blast
  have "Sync.Path v = k" if "(k, v) \<in> set (AList.map_entry path f (runningSyncs st))" for k v
  proof -
    from that set_map_entry_subset [of path f "runningSyncs st"]
    consider "(k, v) \<in> set (runningSyncs st)"
      | v' where "k = path" "v = f v'" "(path, v') \<in> set (runningSyncs st)"
      by blast
    then show ?thesis
    proof cases
      case 1 then show ?thesis by (rule old)
    next
      case 2 then show ?thesis using old [of path v'] assms(2) [of v'] by simp
    qed
  qed
  then have "\<forall>(k, v) \<in> set (AList.map_entry path f (runningSyncs st)). Sync.Path v = k"
    by blast
  then show ?thesis
    using assms(1) unfolding registryInv_def
    by (simp add: keys_map_entry distinct_map_entry)
qed

lemma registryInv_cancel:
  assumes "registryInv st"
  shows "registryInv (snd (CancelSync bind st))"
  using assms by (cases bind) (simp_all add: CancelSync_def registryInv_map_entry)

lemma registryInv_finish:
  assumes "registryInv st"
  shows "registryInv (snd (startSync env currentSync st))"
proof -
  have "\<forall>(k, v) \<in> set (AList.delete (Sync.Path currentSync) (runningSyncs st)). Sync.Path v = k"
    using assms set_delete_subset [of "Sync.Path currentSync" "runningSyncs st"]
    unfolding registryInv_def by blast
  then show ?thesis
    using assms unfolding registryInv_def startSync_def
    by (auto simp: keys_delete distinct_delete)
qed

lemma reachable_registryInv: "reachable st \<Longrightarrow> registryInv st"
  by (induction rule: reachable.induct)
     (simp_all add: registryInv_init registryInv_sync registryInv_map_entry registryInv_cancel
        registryInv_finish)


text \<open>
  Claim C1. In every reachable state, \<open>sync\<close> returns \<open>false\<close> and changes nothing when
  a registered path equals the requested path, is a prefix of it or has it as a prefix;
  otherwise it returns \<open>true\<close>, stores the new job under the path and launches its
  goroutine. No two distinct registered paths of a reachable state are prefixes of
  one another (the state after \<open>sync\<close> is reachable too).
\<close>

theorem sync_no_overlap:
  fixes st :: "('w::len) word system"
  assumes "reachable st"
  shows "((\<exists>q \<in> keys (runningSyncs st). q = path \<or> prefix q path \<or> prefix path q)
            \<longrightarrow> sync st path = (False, st)) \<and>
         (\<not> (\<exists>q \<in> keys (runningSyncs st). q = path \<or> prefix q path \<or> prefix path q)
            \<longrightarrow> sync st path =
                  (True, st\<lparr>runningSyncs := AList.update path (newSync path) (runningSyncs st),
                            tasks := path # tasks st\<rparr>)
                \<and> map_of (runningSyncs (snd (sync st path)))
                    = (map_of (runningSyncs st))(path \<mapsto> newSync path)) \<and>
         (\<forall>p \<in> keys (runningSyncs st). \<forall>q \<in> keys (runningSyncs st).
            p \<noteq> q \<longrightarrow> \<not> prefix p q \<and> \<not> prefix q p)"
proof -
  have inv: "registryInv st" using assms by (rule reachable_registryInv)
  have scan: "scanOverlap (runningSyncs st) path \<longleftrightarrow>
      (\<exists>q \<in> keys (runningSyncs st). q = path \<or> prefix q path \<or> prefix path q)"
    using inv by (rule scanOverlap_keys)
  have refuse: "sync st path = (False, st)" if "scanOverlap (runningSyncs st) path"
    using that by (simp add: sync_def)
  have accept: "sync st path =
        (True, st\<lparr>runningSyncs := AList.update path (newSync path) (runningSyncs st),
                  tasks := path # tasks st\<rparr>)
      \<and> map_of (runningSyncs (snd (sync st path)))
          = (map_of (runningSyncs st))(path \<mapsto> newSync path)"
    if "\<not> scanOverlap (runningSyncs st) path"
    using that by (simp add: sync_def update_conv')
  have disjoint: "\<forall>p \<in> keys (runningSyncs st). \<forall>q \<in> keys (runningSyncs st).
      p \<noteq> q \<longrightarrow> \<not> prefix p q \<and> \<not> prefix q p"
    using inv unfolding registryInv_def by blast
  show ?thesis using scan refuse accept disjoint by blast
qed

theorem sync_no_overlap_witness:
  "reachable (snd (sync \<lparr>runningSyncs = [], tasks = []\<rparr> ''/a'') :: 64 word system) \<and>
   sync (snd (sync \<lparr>runningSyncs = [], tasks = []\<rparr> ''/a'') :: 64 word system) ''/a/b''
     = (False, snd (sync \<lparr>runningSyncs = [], tasks = []\<rparr> ''/a'')) \<and>
   fst (sync (snd (sync \<lparr>runningSyncs = [], tasks = []\<rparr> ''/a'') :: 64 word system) ''/c'')"
proof -
  let ?st = "snd (sync \<lparr>runningSyncs = [], tasks = []\<rparr> ''/a'') :: 64 word system"
  have r: "reachable ?st" by (rule reachable.start [OF reachable.init])
  have k: "keys (runningSyncs ?st) = {''/a''}" by (simp add: sync_def keys_def)
  show ?thesis
    using r sync_no_overlap [OF r, of "''/a/b''"] sync_no_overlap [OF r, of "''/c''"]
    by (simp add: k)
qed

text \<open>
  Claim C9. The scan compares bytes, not path components: with \<open>/a\<close> registered, a
  request for its sibling \<open>/ab\<close> (neither directory lies below the other) is refused by
  \<open>sync\<close>, and \<open>remove\<close> refuses to delete \<open>/ab\<close> and leaves the file system alone.
\<close>

theorem overlap_scan_bytewise:
  fixes st :: "('w::len) word system"
  assumes "reachable st" "''/a'' \<in> keys (runningSyncs st)"
  shows "\<not> prefix ''/a/'' ''/ab'' \<and> \<not> prefix ''/ab/'' ''/a'' \<and>
         sync st ''/ab'' = (False, st) \<and>
         remove RemoveAll Join DataPath (runningSyncs st) ''/ab'' fs = ((False, None), fs)"
proof -
  have "prefix ''/a'' ''/ab''" by simp
  with assms(2) have "\<exists>q \<in> keys (runningSyncs st). q = ''/ab'' \<or> prefix q ''/ab'' \<or> prefix ''/ab'' q"
    by blast
  then have "scanOverlap (runningSyncs st) ''/ab''"
    using scanOverlap_keys [OF reachable_registryInv [OF assms(1)], of "''/ab''"] by blast
  then show ?thesis by (simp add: sync_def remove_def)
qed

theorem overlap_scan_bytewise_witness:
  "reachable (snd (sync \<lparr>runningSyncs = [], tasks = []\<rparr> ''/a'') :: 64 word system) \<and>
   ''/a'' \<in> keys (runningSyncs (snd (sync \<lparr>runningSyncs = [], tasks = []\<rparr> ''/a'') :: 64 word system)) \<and>
   fst (sync (snd (sync \<lparr>runningSyncs = [], tasks = []\<rparr> ''/a'') :: 64 word system) ''/ab'') = False \<and>
   remove (\<lambda>target fs. (None, removeAll target fs)) (\<lambda>a b. a @ b) ''/data''
     (runningSyncs (snd (sync \<lparr>runningSyncs = [], tasks = []\<rparr> ''/a'') :: 64 word system))
     ''/ab'' [''/data/ab''] = ((False, None), [''/data/ab''])"
proof -
  let ?st = "snd (sync \<lparr>runningSyncs = [], tasks = []\<rparr> ''/a'') :: 64 word system"
  have r: "reachable ?st" by (rule reachable.start [OF reachable.init])
  have k: "''/a'' \<in> keys (runningSyncs ?st)" by (simp add: sync_def keys_def)
  show ?thesis
    using r k overlap_scan_bytewise [OF r k, of "\<lambda>target fs. (None, removeAll target fs)"
        "\<lambda>a b. a @ b" "''/data''" "[''/data/ab'']"]
    by simp
qed

section \<open>The progress reader: classification of words\<close>

lemma HasSuffix_iff_suffix: "HasSuffix s suf \<longleftrightarrow> suffix suf s"
  unfolding HasSuffix_def suffix_def
  by (metis append_eq_conv_conj append_take_drop_id length_append diff_add_inverse2 le_add2 length_drop)

lemma TrimSuffix_append [simp]: "TrimSuffix (pre @ suf) suf = pre"
  by (simp add: TrimSuffix_def HasSuffix_def)

lemma HasSuffix_append [simp]: "HasSuffix (pre @ suf) suf"
  by (simp add: HasSuffix_def)

lemma HasPrefix_single: "HasPrefix (c # cs) [d] \<longleftrightarrow> c = d"
  by (simp add: HasPrefix_def)

lemma Contains_single: "Contains s [c] \<longleftrightarrow> c \<in> set s"
  by (induction s) (auto simp: HasPrefix_single)

lemma ReplaceAll_single_empty: "ReplaceAll s [c] [] = filter (\<lambda>x. x \<noteq> c) s"
  by (induction s) (auto simp: HasPrefix_single)


lemma uint_of_negative:
  fixes v :: "('w::len) word"
  assumes "sint v < 0"
  shows "uint v = 2 ^ LENGTH('w) + sint v"
proof -
  have lo: "- (2 ^ (LENGTH('w) - 1)) \<le> sint v" by (rule sint_ge)
  have "(2::int) ^ (LENGTH('w) - 1) \<le> 2 ^ LENGTH('w)" by (rule power_increasing) simp_all
  with lo have lo': "0 \<le> 2 ^ LENGTH('w) + sint v" by linarith
  have "uint v = uint (word_of_int (sint v) :: 'w word)" by simp
  also have "\<dots> = sint v mod 2 ^ LENGTH('w)" by (simp only: uint_word_of_int)
  also have "\<dots> = (2 ^ LENGTH('w) + sint v) mod 2 ^ LENGTH('w)" by simp
  also have "\<dots> = 2 ^ LENGTH('w) + sint v"
    using lo' assms by (intro mod_pos_pos_trivial) simp_all
  finally show ?thesis .
qed

lemma processToken_percent:
  "processToken atoi fromHumanSize s (pre @ ''%'') =
     (case atoi pre of None \<Rightarrow> s | Some v \<Rightarrow> s\<lparr>Progress := v\<rparr>)"
  by (simp add: processToken_def)

lemma processToken_speed:
  assumes "\<not> suffix ''%'' (pre @ ''/s'')"
  shows "processToken atoi fromHumanSize s (pre @ ''/s'') =
     (case fromHumanSize pre of None \<Rightarrow> s | Some v \<Rightarrow> s\<lparr>Speed := scast v\<rparr>)"
proof -
  have "\<not> HasSuffix (pre @ ''/s'') ''%''"
    using assms by (simp only: HasSuffix_iff_suffix not_False_eq_True)
  then show ?thesis by (simp add: processToken_def)
qed

lemma processToken_timeLeft:
  assumes "\<not> suffix ''%'' text" "\<not> suffix ''/s'' text" "CHR '':'' \<in> set text"
  shows "processToken atoi fromHumanSize s text = s\<lparr>TimeLeft := text\<rparr>"
  using assms by (simp add: processToken_def HasSuffix_iff_suffix Contains_single)

lemma processToken_downloaded:
  assumes "\<not> suffix ''%'' text" "\<not> suffix ''/s'' text" "CHR '':'' \<notin> set text"
  shows "processToken atoi fromHumanSize s text =
     (case atoi (filter (\<lambda>c. c \<noteq> CHR '','') text) of
        None \<Rightarrow> s | Some v \<Rightarrow> s\<lparr>Downloaded := v\<rparr>)"
  using assms
  by (simp add: processToken_def HasSuffix_iff_suffix Contains_single ReplaceAll_single_empty)

lemma progressReader_append:
  "progressReader atoi fromHumanSize s (texts @ [text]) =
     processToken atoi fromHumanSize (progressReader atoi fromHumanSize s texts) text"
  by (induction texts arbitrary: s) simp_all

text \<open>
  Claim C3. A word of the progress stream falls under exactly one rule, tried in this
  order: it ends in \<open>%\<close>, and what precedes goes through \<open>Atoi\<close> into \<open>Progress\<close>; else it
  ends in \<open>/s\<close>, and what precedes goes through \<open>FromHumanSize\<close> into \<open>Speed\<close>; else it
  contains a colon and becomes \<open>TimeLeft\<close> as it is; else its commas are removed and the
  rest goes through \<open>Atoi\<close> into \<open>Downloaded\<close>. When the parser fails the job is left
  exactly as it was, no other field is ever written, and the reader goes on to the next
  word.
\<close>

theorem token_classification:
  fixes s :: "('w::len) word Sync"
  shows
  "(\<forall>pre. text = pre @ ''%'' \<longrightarrow>
      processToken atoi fromHumanSize s text =
        (case atoi pre of None \<Rightarrow> s | Some v \<Rightarrow> s\<lparr>Progress := v\<rparr>)) \<and>
   (\<forall>pre. \<not> suffix ''%'' text \<and> text = pre @ ''/s'' \<longrightarrow>
      processToken atoi fromHumanSize s text =
        (case fromHumanSize pre of None \<Rightarrow> s | Some v \<Rightarrow> s\<lparr>Speed := scast v\<rparr>)) \<and>
   (\<not> suffix ''%'' text \<and> \<not> suffix ''/s'' text \<and> CHR '':'' \<in> set text \<longrightarrow>
      processToken atoi fromHumanSize s text = s\<lparr>TimeLeft := text\<rparr>) \<and>
   (\<not> suffix ''%'' text \<and> \<not> suffix ''/s'' text \<and> CHR '':'' \<notin> set text \<longrightarrow>
      processToken atoi fromHumanSize s text =
        (case atoi (filter (\<lambda>c. c \<noteq> CHR '','') text) of
           None \<Rightarrow> s | Some v \<Rightarrow> s\<lparr>Downloaded := v\<rparr>)) \<and>
   progressReader atoi fromHumanSize s (texts @ [text]) =
     processToken atoi fromHumanSize (progressReader atoi fromHumanSize s texts) text"
  using processToken_percent [of atoi fromHumanSize s]
    processToken_speed [of _ atoi fromHumanSize s]
    processToken_timeLeft [of "text" atoi fromHumanSize s]
    processToken_downloaded [of "text" atoi fromHumanSize s]
    progressReader_append [of atoi fromHumanSize s texts "text"]
  by blast

theorem token_classification_witness:
  "processToken Atoi (\<lambda>s. if s = ''1.50MB'' then Some 1500000 else None)
      (newSync ''/a'' :: 64 word Sync) ''42%'' = (newSync ''/a'')\<lparr>Progress := 42\<rparr> \<and>
   processToken Atoi (\<lambda>s. if s = ''1.50MB'' then Some 1500000 else None)
      (newSync ''/a'' :: 64 word Sync) ''garbage%%'' = newSync ''/a'' \<and>
   processToken Atoi (\<lambda>s. if s = ''1.50MB'' then Some 1500000 else None)
      (newSync ''/a'' :: 64 word Sync) ''1.50MB/s'' = (newSync ''/a'')\<lparr>Speed := 1500000\<rparr> \<and>
   processToken Atoi (\<lambda>s. if s = ''1.50MB'' then Some 1500000 else None)
      (newSync ''/a'' :: 64 word Sync) ''0:00:12'' = (newSync ''/a'')\<lparr>TimeLeft := ''0:00:12''\<rparr> \<and>
   processToken Atoi (\<lambda>s. if s = ''1.50MB'' then Some 1500000 else None)
      (newSync ''/a'' :: 64 word Sync) ''1,234'' = (newSync ''/a'')\<lparr>Downloaded := 1234\<rparr>"
proof -
  let ?f = "\<lambda>s. if s = ''1.50MB'' then Some (1500000 :: 64 word) else None"
  let ?s = "newSync ''/a'' :: 64 word Sync"
  have a: "(Atoi ''42'' :: 64 word option) = Some 42"
    "(Atoi ''garbage%'' :: 64 word option) = None"
    "(Atoi ''1234'' :: 64 word option) = Some 1234"
    by (simp_all add: Atoi_def isDigit_def digitsValue_def)
  show ?thesis
    using token_classification [of "''42%''" Atoi ?f ?s "[]"]
      token_classification [of "''garbage%%''" Atoi ?f ?s "[]"]
      token_classification [of "''1.50MB/s''" Atoi ?f ?s "[]"]
      token_classification [of "''0:00:12''" Atoi ?f ?s "[]"]
      token_classification [of "''1,234''" Atoi ?f ?s "[]"]
    by (simp add: a suffix_to_prefix)
qed

text \<open>
  Claim C10. When the text before \<open>%\<close> parses as a negative integer \<open>v\<close>, this is no
  parse failure: \<open>Progress\<close> is overwritten with the same bits read as unsigned, the
  number \<open>2 ^ w + v\<close> for the word width \<open>w\<close>; for \<open>-5%\<close> on a 64-bit platform that is
  \<open>2 ^ 64 - 5\<close>.
\<close>

theorem negative_progress_wraps:
  fixes s :: "('w::len) word Sync"
  assumes "atoi pre = Some v" "sint v < 0"
  shows "processToken atoi fromHumanSize s (pre @ ''%'') = s\<lparr>Progress := v\<rparr> \<and>
         uint (Progress (processToken atoi fromHumanSize s (pre @ ''%'')))
           = 2 ^ LENGTH('w) + sint v"
  using assms by (simp add: processToken_percent uint_of_negative)

theorem negative_progress_wraps_witness:
  "(Atoi ''-5'' :: 64 word option) = Some (- 5) \<and> sint (- 5 :: 64 word) < 0 \<and>
   uint (Progress (processToken Atoi (\<lambda>s. None) ((newSync ''/a'')\<lparr>Progress := 17\<rparr>) ''-5%''
           :: 64 word Sync))
     = 2 ^ 64 - 5 \<and>
   unat (Progress (processToken Atoi (\<lambda>s. None) ((newSync ''/a'')\<lparr>Progress := 17\<rparr>) ''-5%''
           :: 64 word Sync))
     = 18446744073709551611"
proof -
  have a: "(Atoi ''-5'' :: 64 word option) = Some (- 5)"
    by (simp add: Atoi_def isDigit_def digitsValue_def)
  have n: "sint (- 5 :: 64 word) < 0" by simp
  show ?thesis
    using a n negative_progress_wraps [of Atoi "''-5''" "- 5 :: 64 word" "\<lambda>s. None"
        "(newSync ''/a'')\<lparr>Progress := 17\<rparr>"]
    by simp
qed

section \<open>The supervisor: removal of the job, cancellation\<close>

lemma startSyncBody_RunRsync:
  "RunRsync \<in> set (startSyncBody env) \<longleftrightarrow>
     MkdirAllErr env = None \<and> StderrPipeErr env = None \<and> StdoutPipeErr env = None"
  by (simp add: startSyncBody_def split: option.splits)

lemma startSync_lookup:
  "map_of (runningSyncs (snd (startSync env currentSync st))) =
     (map_of (runningSyncs st))(Sync.Path currentSync := None)"
  by (simp add: startSync_def delete_conv')

lemma reachable_tasks: "reachable st \<Longrightarrow> set (tasks st) = keys (runningSyncs st) \<and> distinct (tasks st)"
  using reachable_registryInv [of st] by (simp add: registryInv_def)

text \<open>
  Claim C6. However \<open>startSync\<close> returns (the directory could not be created, a pipe
  could not be set up, the process exited with or without an error), its job is no
  longer in the registry afterwards and every other entry is as before; when
  \<open>os.MkdirAll\<close> fails, rsync is never run. In every reachable state the registered paths
  are exactly the paths whose goroutine has not returned, so a started job that is
  absent from the registry has terminated, and a terminated one is absent.
\<close>

theorem job_removed_on_exit:
  fixes st :: "('w::len) word system"
  shows
  "map_of (runningSyncs (snd (startSync env currentSync st))) (Sync.Path currentSync) = None \<and>
   (\<forall>p. p \<noteq> Sync.Path currentSync \<longrightarrow>
      map_of (runningSyncs (snd (startSync env currentSync st))) p = map_of (runningSyncs st) p) \<and>
   (MkdirAllErr env \<noteq> None \<longrightarrow> RunRsync \<notin> set (fst (startSync env currentSync st))) \<and>
   (reachable st \<longrightarrow>
      Sync.Path currentSync \<notin> set (tasks (snd (startSync env currentSync st))) \<and>
      (\<forall>p. p \<in> keys (runningSyncs st) \<longleftrightarrow> p \<in> set (tasks st)))"
proof -
  have 1: "map_of (runningSyncs (snd (startSync env currentSync st))) (Sync.Path currentSync) = None"
    by (simp add: startSync_lookup)
  have 2: "\<forall>p. p \<noteq> Sync.Path currentSync \<longrightarrow>
      map_of (runningSyncs (snd (startSync env currentSync st))) p = map_of (runningSyncs st) p"
    by (simp add: startSync_lookup)
  have 3: "MkdirAllErr env \<noteq> None \<longrightarrow> RunRsync \<notin> set (fst (startSync env currentSync st))"
    by (simp add: startSync_def startSyncBody_RunRsync)
  have 4: "Sync.Path currentSync \<notin> set (tasks (snd (startSync env currentSync st)))"
    if "reachable st"
    using reachable_tasks [OF that] by (simp add: startSync_def)
  have 5: "\<forall>p. p \<in> keys (runningSyncs st) \<longleftrightarrow> p \<in> set (tasks st)" if "reachable st"
    using reachable_tasks [OF that] by simp
  show ?thesis using 1 2 3 4 5 by blast
qed

theorem job_removed_on_exit_witness:
  "reachable (snd (sync \<lparr>runningSyncs = [], tasks = []\<rparr> ''/a'') :: 64 word system) \<and>
   runningSyncs (snd (startSync
       \<lparr>MkdirAllErr = Some ''permission denied'', StderrPipeErr = None, StdoutPipeErr = None,
        RunErr = None\<rparr>
       (newSync ''/a'') (snd (sync \<lparr>runningSyncs = [], tasks = []\<rparr> ''/a'') :: 64 word system))) = [] \<and>
   fst (startSync
       \<lparr>MkdirAllErr = Some ''permission denied'', StderrPipeErr = None, StdoutPipeErr = None,
        RunErr = None\<rparr>
       (newSync ''/a'') (snd (sync \<lparr>runningSyncs = [], tasks = []\<rparr> ''/a'') :: 64 word system))
     = [LogError ''create path failed'', CancelContext] \<and>
   tasks (snd (startSync
       \<lparr>MkdirAllErr = None, StderrPipeErr = None, StdoutPipeErr = None,
        RunErr = Some ''signal: terminated''\<rparr>
       (newSync ''/a'') (snd (sync \<lparr>runningSyncs = [], tasks = []\<rparr> ''/a'') :: 64 word system))) = []"
proof -
  let ?st = "snd (sync \<lparr>runningSyncs = [], tasks = []\<rparr> ''/a'') :: 64 word system"
  let ?e1 = "\<lparr>MkdirAllErr = Some ''permission denied'', StderrPipeErr = None,
              StdoutPipeErr = None, RunErr = None\<rparr>"
  let ?e2 = "\<lparr>MkdirAllErr = None, StderrPipeErr = None, StdoutPipeErr = None,
              RunErr = Some ''signal: terminated''\<rparr>"
  have r: "reachable ?st" by (rule reachable.start [OF reachable.init])
  show ?thesis
    using r job_removed_on_exit [of ?e1 "newSync ''/a''" ?st]
      job_removed_on_exit [of ?e2 "newSync ''/a''" ?st]
    by (simp add: sync_def startSync_def startSyncBody_def newSync_def)
qed

text \<open>
  The command's context is a child of the job's: once the job's context is done, so is
  the command's, and a started rsync is killed by \<open>os/exec\<close> without any delay.
\<close>

lemma execContext_done_with_job:
  "ctxDone called (jobContext (supervise ctx jobCancel cancel process)) \<Longrightarrow>
     ctxDone called (execContext (supervise ctx jobCancel cancel process))"
  by (simp add: supervise_def Let_def)

lemma killed_when_cancelled:
  "killedByExec (insert jobCancel called) (supervise ctx jobCancel cancel (Some p))"
  by (simp add: killedByExec_def supervise_def Let_def)

text \<open>
  The watcher sleeps until the job's context is done; woken for a command that was
  never started it panics; for a started command with a valid handle it signals, waits
  and calls a cancel function whose context is done already.
\<close>

lemma watcher_blocked:
  "\<not> ctxDone called (jobContext s) \<Longrightarrow> watcher s signalErr called = Blocked"
  by (simp add: watcher_def)

lemma watcher_never_started:
  "watcher (supervise ctx jobCancel cancel None) signalErr (insert jobCancel called)
     = Panicked NilPointerDereference"
  by (simp add: watcher_def supervise_def Let_def)

lemma watcher_valid_handle:
  "Pid p \<noteq> - 1 \<Longrightarrow>
     watcher (supervise ctx jobCancel cancel (Some p)) signalErr (insert jobCancel called)
       = Returned
           (SignalSIGTERM #
            (case signalErr of Some err \<Rightarrow> [LogError ''terminate err''] | None \<Rightarrow> []) @
            [SleepSeconds 5, CancelContext])
           (insert cancel (insert jobCancel called))"
  by (simp add: watcher_def supervise_def Let_def)

text \<open>
  Claim C7 describes what the code sets out to do, and the code misses it twice. The
  job's cancel function (number 0) has been called, nothing else. If rsync has not been
  started yet, the watcher does not skip the signal: it panics on the \<open>nil\<close> handle. If
  rsync runs (with the valid handle 4711), the context of the command (cancel function
  1) is done at once, so \<open>os/exec\<close> kills rsync before the 5 seconds have begun, and
  the watcher's \<open>cancel()\<close> after them finds nothing left to cancel.
\<close>

theorem cancel_panics_or_kills_at_once:
  "watcher (supervise Background 0 1 None) None {0} = Panicked NilPointerDereference \<and>
   ctxDone {0} (execContext (supervise Background 0 1 (Some \<lparr>Pid = 4711\<rparr>))) \<and>
   killedByExec {0} (supervise Background 0 1 (Some \<lparr>Pid = 4711\<rparr>)) \<and>
   watcher (supervise Background 0 1 (Some \<lparr>Pid = 4711\<rparr>))
       (Some ''os: process already finished'') {0}
     = Returned [SignalSIGTERM, LogError ''terminate err'', SleepSeconds 5, CancelContext]
         {1, 0}"
  by (simp add: watcher_def supervise_def Let_def killedByExec_def)

section \<open>The snapshot\<close>

lemma ListSyncs_view:
  "ListSyncs sortSlice data =
     sortSlice (\<lambda>a b. SyncResult.Path a > SyncResult.Path b) (map (view \<circ> snd) data)"
proof -
  have "(\<lambda>(k, value). view value) = view \<circ> snd" by auto
  then show ?thesis unfolding ListSyncs_def view_def [abs_def] by (simp add: comp_def case_prod_unfold)
qed

lemma view_Path [simp]: "SyncResult.Path (view v) = Sync.Path v"
  by (simp add: view_def)

lemma paths_of_views:
  assumes "\<forall>(k, v) \<in> set data. Sync.Path v = k"
  shows "map SyncResult.Path (map (view \<circ> snd) data) = map fst data"
  using assms by (induction data) auto

lemma ListSyncs_paths:
  assumes c: "sortContract sortSlice (\<lambda>a b. SyncResult.Path a > SyncResult.Path b)"
    and d: "distinct (map fst data)"
    and v: "\<forall>(k, v) \<in> set data. Sync.Path v = k"
  shows "map SyncResult.Path (ListSyncs sortSlice data) = rev (sort (map fst data))"
proof -
  let ?lt = "\<lambda>a b :: 'a SyncResult. SyncResult.Path a > SyncResult.Path b"
  let ?vs = "map (view \<circ> snd) data"
  let ?r = "sortSlice ?lt ?vs"
  have m: "mset ?r = mset ?vs" using c by (simp add: sortContract_def)
  have "mset (map SyncResult.Path ?r) = mset (map SyncResult.Path ?vs)"
    using m by (metis mset_map)
  then have mp: "mset (map SyncResult.Path ?r) = mset (map fst data)"
    by (simp only: paths_of_views [OF v])
  have s: "sorted_wrt (\<lambda>a b. \<not> ?lt b a) ?r" using c by (simp add: sortContract_def)
  have "sorted_wrt (\<lambda>a b. SyncResult.Path b \<le> SyncResult.Path a) ?r"
    by (rule sorted_wrt_mono_rel [OF _ s]) (simp add: not_less)
  then have "sorted_wrt (\<lambda>x y. y \<le> x) (map SyncResult.Path ?r)"
    by (simp add: sorted_wrt_map)
  then have so: "sorted (rev (map SyncResult.Path ?r))"
    by (simp add: sorted_wrt_rev)
  have di: "distinct (rev (map SyncResult.Path ?r))"
    using mp d by (metis distinct_rev mset_eq_imp_distinct_iff)
  have se: "set (rev (map SyncResult.Path ?r)) = set (sort (map fst data))"
    using mp by (metis set_rev set_sort set_mset_mset)
  have "rev (map SyncResult.Path ?r) = sort (map fst data)"
    by (rule sorted_distinct_set_unique [OF so di _ _ se]) (simp_all add: d)
  then have "map SyncResult.Path ?r = rev (sort (map fst data))"
    by (metis rev_rev_ident)
  then show ?thesis by (simp only: ListSyncs_view)
qed

lemma ListSyncs_order_independent:
  assumes c: "sortContract sortSlice (\<lambda>a b. SyncResult.Path a > SyncResult.Path b)"
    and d: "distinct (map fst data)"
    and v: "\<forall>(k, v) \<in> set data. Sync.Path v = k"
    and d': "distinct (map fst data')"
    and e: "set data' = set data"
  shows "ListSyncs sortSlice data' = ListSyncs sortSlice data"
proof -
  let ?lt = "\<lambda>a b :: 'a SyncResult. SyncResult.Path a > SyncResult.Path b"
  have v': "\<forall>(k, v) \<in> set data'. Sync.Path v = k" using v e by simp
  have "distinct data" "distinct data'" using d d' by (simp_all add: distinct_map)
  then have md: "mset data' = mset data" using e by (simp add: set_eq_iff_mset_eq_distinct)
  then have "mset (map fst data') = mset (map fst data)" by (metis mset_map)
  then have "sort (map fst data) = sort (map fst data')"
    by (intro properties_for_sort) simp_all
  then have "sort (map fst data') = sort (map fst data)" by simp
  then have p: "map SyncResult.Path (ListSyncs sortSlice data')
      = map SyncResult.Path (ListSyncs sortSlice data)"
    by (simp only: ListSyncs_paths [OF c d v] ListSyncs_paths [OF c d' v'])
  have "mset (map (view \<circ> snd) data') = mset (map (view \<circ> snd) data)"
    using md by (metis mset_map)
  then have ms: "mset (ListSyncs sortSlice data') = mset (ListSyncs sortSlice data)"
    using c by (simp add: ListSyncs_view sortContract_def)
  have "mset (ListSyncs sortSlice data) = mset (map (view \<circ> snd) data)"
    using c by (simp add: ListSyncs_view sortContract_def)
  then have sd: "set (ListSyncs sortSlice data) = set (map (view \<circ> snd) data)"
    by (metis set_mset_mset)
  have "distinct (map SyncResult.Path (map (view \<circ> snd) data))"
    using d by (simp only: paths_of_views [OF v])
  then have "inj_on SyncResult.Path (set (map (view \<circ> snd) data))"
    by (simp only: distinct_map)
  then have inj: "inj_on SyncResult.Path (set (ListSyncs sortSlice data') \<union> set (ListSyncs sortSlice data))"
    using sd ms by (metis set_mset_mset sup.idem)
  show ?thesis by (rule map_inj_on [OF p inj])
qed

text \<open>
  Claim C8. In every reachable state the list \<open>ListSyncs\<close> returns holds exactly the
  views of the registered jobs, one each, with the fields of the job; its paths are the
  registered paths in descending order, strictly; and the list is the same for every
  order in which the map could be enumerated.
\<close>

theorem ListSyncs_sorted:
  fixes st :: "('w::len) word system"
  assumes "reachable st"
    and "sortContract sortSlice (\<lambda>a b :: 'w word SyncResult. SyncResult.Path a > SyncResult.Path b)"
  shows
  "mset (ListSyncs sortSlice (runningSyncs st)) = mset (map (view \<circ> snd) (runningSyncs st)) \<and>
   map SyncResult.Path (ListSyncs sortSlice (runningSyncs st))
     = rev (sort (map fst (runningSyncs st))) \<and>
   sorted_wrt (\<lambda>a b. SyncResult.Path a > SyncResult.Path b)
     (ListSyncs sortSlice (runningSyncs st)) \<and>
   (\<forall>data'. set data' = set (runningSyncs st) \<and> distinct (map fst data') \<longrightarrow>
      ListSyncs sortSlice data' = ListSyncs sortSlice (runningSyncs st))"
proof -
  let ?data = "runningSyncs st"
  have inv: "registryInv st" using assms(1) by (rule reachable_registryInv)
  have d: "distinct (map fst ?data)" and v: "\<forall>(k, v) \<in> set ?data. Sync.Path v = k"
    using inv by (simp_all add: registryInv_def)
  have 1: "mset (ListSyncs sortSlice ?data) = mset (map (view \<circ> snd) ?data)"
    using assms(2) by (simp add: ListSyncs_view sortContract_def)
  have 2: "map SyncResult.Path (ListSyncs sortSlice ?data) = rev (sort (map fst ?data))"
    by (rule ListSyncs_paths [OF assms(2) d v])
  have "sorted_wrt (\<lambda>x y. x > y) (rev (sort (map fst ?data)))"
    using d by (simp add: sorted_wrt_rev strict_sorted_iff)
  then have "sorted_wrt (\<lambda>x y. x > y) (map SyncResult.Path (ListSyncs sortSlice ?data))"
    by (simp only: 2)
  then have 3: "sorted_wrt (\<lambda>a b. SyncResult.Path a > SyncResult.Path b) (ListSyncs sortSlice ?data)"
    by (simp add: sorted_wrt_map)
  have 4: "\<forall>data'. set data' = set ?data \<and> distinct (map fst data') \<longrightarrow>
      ListSyncs sortSlice data' = ListSyncs sortSlice ?data"
    using ListSyncs_order_independent [OF assms(2) d v] by blast
  show ?thesis using 1 2 3 4 by blast
qed


lemma mset_insertBy: "mset (insertBy lt x xs) = add_mset x (mset xs)"
  by (induction xs) simp_all

lemma mset_insertionSort: "mset (insertionSort lt xs) = mset xs"
  by (induction xs) (simp_all add: mset_insertBy)

lemma set_insertBy: "set (insertBy lt x xs) = insert x (set xs)"
  by (induction xs) auto

lemma sorted_insertBy:
  fixes f :: "'a \<Rightarrow> 'b::linorder"
  assumes "sorted_wrt (\<lambda>a b. f b \<le> f a) xs"
  shows "sorted_wrt (\<lambda>a b. f b \<le> f a) (insertBy (\<lambda>a b. f a > f b) x xs)"
  using assms by (induction xs) (auto simp: set_insertBy)

lemma sorted_insertionSort:
  fixes f :: "'a \<Rightarrow> 'b::linorder"
  shows "sorted_wrt (\<lambda>a b. f b \<le> f a) (insertionSort (\<lambda>a b. f a > f b) xs)"
  by (induction xs) (simp_all add: sorted_insertBy)

lemma insertionSort_contract:
  fixes f :: "'a \<Rightarrow> 'b::linorder"
  shows "sortContract insertionSort (\<lambda>a b. f a > f b)"
  unfolding sortContract_def
  by (simp add: mset_insertionSort not_less sorted_insertionSort)

theorem ListSyncs_sorted_witness:
  "reachable (snd (sync (snd (sync \<lparr>runningSyncs = [], tasks = []\<rparr> ''/a'')) ''/b'')
      :: 64 word system) \<and>
   sortContract insertionSort
     (\<lambda>a b :: 64 word SyncResult. SyncResult.Path a > SyncResult.Path b) \<and>
   map SyncResult.Path
     (ListSyncs insertionSort
        (runningSyncs (snd (sync (snd (sync \<lparr>runningSyncs = [], tasks = []\<rparr> ''/a'')) ''/b'')
           :: 64 word system)))
     = [''/b'', ''/a'']"
proof -
  let ?st = "snd (sync (snd (sync \<lparr>runningSyncs = [], tasks = []\<rparr> ''/a'')) ''/b'') :: 64 word system"
  have r: "reachable ?st" by (intro reachable.start reachable.init)
  have c: "sortContract insertionSort
     (\<lambda>a b :: 64 word SyncResult. SyncResult.Path a > SyncResult.Path b)"
    by (rule insertionSort_contract)
  have k: "map fst (runningSyncs ?st) = [''/a'', ''/b'']"
    by (simp add: sync_def newSync_def HasPrefix_def)
  have "map SyncResult.Path (ListSyncs insertionSort (runningSyncs ?st))
      = rev (sort (map fst (runningSyncs ?st)))"
    using ListSyncs_sorted [OF r c] by (rule conjunct2 [THEN conjunct1])
  also have "\<dots> = rev (sort [''/a'', ''/b''])" by (simp only: k)
  also have "\<dots> = [''/b'', ''/a'']" by simp
  finally show ?thesis using r c by (intro conjI)
qed

section \<open>The start handler\<close>

lemma fst_addItem:
  "fst (addItem path name parent synced st) =
     AList.update path (Dir (length (snd st)) path name parent) (fst st)"
  by (cases st) (simp add: addItem_def Let_def)

lemma keys_scanLines:
  "keys (fst (scanLines filepathDir filepathBase lines st)) = keys (fst st) \<union> set lines"
  by (induction lines arbitrary: st) (auto simp: fst_addItem keys_update)

lemma buildRemoteTree_Ran:
  "\<exists>pathMap h. buildRemoteTree filepathDir filepathBase (Ran lines None) localPathMap
      = Inr (pathMap, h) \<and> keys pathMap = set lines"
proof -
  obtain pathMap h where s: "scanLines filepathDir filepathBase lines ([], []) = (pathMap, h)"
    by (cases "scanLines filepathDir filepathBase lines ([], [])") auto
  have "keys pathMap = set lines"
    using keys_scanLines [of filepathDir filepathBase lines "([], [])"] s
    by (simp add: keys_def)
  then show ?thesis by (simp add: buildRemoteTree_def s)
qed

lemma map_of_None_keys: "map_of al k = None \<longleftrightarrow> k \<notin> keys al"
  by (simp add: keys_def map_of_eq_None_iff)

lemma StartSync_listed:
  "StartSync filepathDir filepathBase (Inr path) (Ran lines None) st =
     (if path \<notin> set lines then (BadRequest ''invalid path'', st)
      else if fst (sync st path) then (OK, snd (sync st path))
      else (Conflict ''sync already started'', snd (sync st path)))"
proof -
  obtain pathMap h where
    b: "buildRemoteTree filepathDir filepathBase (Ran lines None) [] = Inr (pathMap, h)"
    and k: "keys pathMap = set lines"
    using buildRemoteTree_Ran by blast
  show ?thesis
    by (cases "sync st path") (auto simp: StartSync_def b map_of_None_keys k)
qed

text \<open>
  Claim C4. With the request bound and the remote listing obtained, \<open>StartSync\<close>
  answers \<open>invalid path\<close> exactly when the path is not a line of the listing (and changes
  nothing); for a listed path it answers \<open>sync already started\<close> exactly when a
  registered path equals it, is a prefix of it or has it as a prefix (and changes
  nothing); otherwise it answers \<open>OK\<close> with the goroutine of the job launched and not
  yet returned, and the registry is the old one with the single new entry for the path.
\<close>

theorem StartSync_behaviour:
  fixes st :: "('w::len) word system"
  assumes "reachable st"
  shows
  "(path \<notin> set lines \<longrightarrow>
      StartSync filepathDir filepathBase (Inr path) (Ran lines None) st
        = (BadRequest ''invalid path'', st)) \<and>
   (path \<in> set lines \<and>
    (\<exists>q \<in> keys (runningSyncs st). q = path \<or> prefix q path \<or> prefix path q) \<longrightarrow>
      StartSync filepathDir filepathBase (Inr path) (Ran lines None) st
        = (Conflict ''sync already started'', st)) \<and>
   (path \<in> set lines \<and>
    \<not> (\<exists>q \<in> keys (runningSyncs st). q = path \<or> prefix q path \<or> prefix path q) \<longrightarrow>
      StartSync filepathDir filepathBase (Inr path) (Ran lines None) st
        = (OK, st\<lparr>runningSyncs := AList.update path (newSync path) (runningSyncs st),
                  tasks := path # tasks st\<rparr>) \<and>
      path \<notin> keys (runningSyncs st) \<and>
      keys (AList.update path (newSync path :: 'w word Sync) (runningSyncs st))
        = insert path (keys (runningSyncs st)) \<and>
      map_of (AList.update path (newSync path) (runningSyncs st))
        = (map_of (runningSyncs st))(path \<mapsto> newSync path))"
proof -
  have s: "((\<exists>q \<in> keys (runningSyncs st). q = path \<or> prefix q path \<or> prefix path q)
            \<longrightarrow> sync st path = (False, st)) \<and>
         (\<not> (\<exists>q \<in> keys (runningSyncs st). q = path \<or> prefix q path \<or> prefix path q)
            \<longrightarrow> sync st path =
                  (True, st\<lparr>runningSyncs := AList.update path (newSync path) (runningSyncs st),
                            tasks := path # tasks st\<rparr>))"
    using scanOverlap_keys [OF reachable_registryInv [OF assms], of path]
    by (simp add: sync_def)
  have 1: "path \<notin> set lines \<longrightarrow>
      StartSync filepathDir filepathBase (Inr path) (Ran lines None) st
        = (BadRequest ''invalid path'', st)"
    by (simp add: StartSync_listed)
  have 2: "path \<in> set lines \<and>
    (\<exists>q \<in> keys (runningSyncs st). q = path \<or> prefix q path \<or> prefix path q) \<longrightarrow>
      StartSync filepathDir filepathBase (Inr path) (Ran lines None) st
        = (Conflict ''sync already started'', st)"
    using s by (simp add: StartSync_listed)
  have 3: "path \<in> set lines \<and>
    \<not> (\<exists>q \<in> keys (runningSyncs st). q = path \<or> prefix q path \<or> prefix path q) \<longrightarrow>
      StartSync filepathDir filepathBase (Inr path) (Ran lines None) st
        = (OK, st\<lparr>runningSyncs := AList.update path (newSync path) (runningSyncs st),
                  tasks := path # tasks st\<rparr>)"
    using s by (simp add: StartSync_listed)
  have 4: "\<not> (\<exists>q \<in> keys (runningSyncs st). q = path \<or> prefix q path \<or> prefix path q) \<longrightarrow>
      path \<notin> keys (runningSyncs st)"
    by blast
  have 5: "keys (AList.update path (newSync path :: 'w word Sync) (runningSyncs st))
        = insert path (keys (runningSyncs st))"
    by (rule keys_update)
  have 6: "map_of (AList.update path (newSync path) (runningSyncs st))
        = (map_of (runningSyncs st))(path \<mapsto> newSync path)"
    by (rule update_conv')
  show ?thesis using 1 2 3 4 5 6 by blast
qed

theorem StartSync_behaviour_witness:
  "reachable (snd (sync \<lparr>runningSyncs = [], tasks = []\<rparr> ''/a'') :: 64 word system) \<and>
   StartSync cleanDir cleanBase (Inr ''/x'') (Ran [''/a'', ''/a/b'', ''/c''] None)
     (snd (sync \<lparr>runningSyncs = [], tasks = []\<rparr> ''/a'') :: 64 word system)
     = (BadRequest ''invalid path'', snd (sync \<lparr>runningSyncs = [], tasks = []\<rparr> ''/a'')) \<and>
   StartSync cleanDir cleanBase (Inr ''/a/b'') (Ran [''/a'', ''/a/b'', ''/c''] None)
     (snd (sync \<lparr>runningSyncs = [], tasks = []\<rparr> ''/a'') :: 64 word system)
     = (Conflict ''sync already started'', snd (sync \<lparr>runningSyncs = [], tasks = []\<rparr> ''/a'')) \<and>
   StartSync cleanDir cleanBase (Inr ''/c'') (Ran [''/a'', ''/a/b'', ''/c''] None)
     (snd (sync \<lparr>runningSyncs = [], tasks = []\<rparr> ''/a'') :: 64 word system)
     = (OK, \<lparr>runningSyncs = [(''/a'', newSync ''/a''), (''/c'', newSync ''/c'')],
             tasks = [''/c'', ''/a'']\<rparr>)"
proof -
  let ?st = "snd (sync \<lparr>runningSyncs = [], tasks = []\<rparr> ''/a'') :: 64 word system"
  have r: "reachable ?st" by (rule reachable.start [OF reachable.init])
  have e: "?st = \<lparr>runningSyncs = [(''/a'', newSync ''/a'')], tasks = [''/a'']\<rparr>"
    by (simp add: sync_def)
  have k: "keys (runningSyncs ?st) = {''/a''}" by (simp add: e keys_def)
  have 1: "StartSync cleanDir cleanBase (Inr ''/x'') (Ran [''/a'', ''/a/b'', ''/c''] None) ?st
      = (BadRequest ''invalid path'', ?st)"
    using StartSync_behaviour [OF r, of "''/x''" "[''/a'', ''/a/b'', ''/c'']" cleanDir cleanBase]
    by simp
  have 2: "StartSync cleanDir cleanBase (Inr ''/a/b'') (Ran [''/a'', ''/a/b'', ''/c''] None) ?st
      = (Conflict ''sync already started'', ?st)"
    using StartSync_behaviour [OF r, of "''/a/b''" "[''/a'', ''/a/b'', ''/c'']" cleanDir cleanBase]
    by (simp add: k)
  have 3: "StartSync cleanDir cleanBase (Inr ''/c'') (Ran [''/a'', ''/a/b'', ''/c''] None) ?st
      = (OK, \<lparr>runningSyncs = [(''/a'', newSync ''/a''), (''/c'', newSync ''/c'')],
             tasks = [''/c'', ''/a'']\<rparr>)"
    using StartSync_behaviour [OF r, of "''/c''" "[''/a'', ''/a/b'', ''/c'']" cleanDir cleanBase]
    by (simp add: k) (simp add: e)
  show ?thesis using r 1 2 3 by (intro conjI)
qed


section \<open>The remove handler\<close>

lemma remove_cases:
  "remove RemoveAll Join DataPath data path fs =
     (if scanOverlap data path then ((False, None), fs)
      else ((fst (RemoveAll (Join DataPath path) fs) = None,
             map_option (\<lambda>err. ''remove all: '' @ err) (fst (RemoveAll (Join DataPath path) fs))),
            snd (RemoveAll (Join DataPath path) fs)))"
  by (cases "RemoveAll (Join DataPath path) fs")
     (auto simp: remove_def split: option.splits)

text \<open>
  Claim C5. With the request bound and the local tree built, \<open>Remove\<close> answers
  \<open>invalid path\<close> when the path is not in the tree; for a path in the tree it answers
  \<open>sync in progress\<close> exactly when a registered path equals it, is a prefix of it or has
  it as a prefix, and the file system is untouched in both cases; otherwise it runs
  \<open>os.RemoveAll\<close> on the path below the data directory and answers with an error exactly
  when \<open>os.RemoveAll\<close> returns one.
\<close>

theorem Remove_behaviour:
  fixes st :: "('w::len) word system"
  assumes "reachable st"
    and "buildLocalTree filepathDir absDir items = Inr (localPath, h)"
  shows
  "(map_of localPath path = None \<longrightarrow>
      Remove RemoveAll Join DataPath filepathDir (Inr path) absDir items (runningSyncs st) fs
        = (BadRequest ''invalid path'', fs)) \<and>
   (map_of localPath path \<noteq> None \<and>
    (\<exists>q \<in> keys (runningSyncs st). q = path \<or> prefix q path \<or> prefix path q) \<longrightarrow>
      Remove RemoveAll Join DataPath filepathDir (Inr path) absDir items (runningSyncs st) fs
        = (Conflict ''sync in progress'', fs)) \<and>
   (map_of localPath path \<noteq> None \<and>
    \<not> (\<exists>q \<in> keys (runningSyncs st). q = path \<or> prefix q path \<or> prefix path q) \<longrightarrow>
      Remove RemoveAll Join DataPath filepathDir (Inr path) absDir items (runningSyncs st) fs
        = (case fst (RemoveAll (Join DataPath path) fs) of
             None \<Rightarrow> OK
           | Some err \<Rightarrow> HandlerError (''remove path: remove all: '' @ err),
           snd (RemoveAll (Join DataPath path) fs)))"
proof -
  have scan: "scanOverlap (runningSyncs st) path \<longleftrightarrow>
      (\<exists>q \<in> keys (runningSyncs st). q = path \<or> prefix q path \<or> prefix path q)"
    using reachable_registryInv [OF assms(1)] by (rule scanOverlap_keys)
  have 1: "map_of localPath path = None \<longrightarrow>
      Remove RemoveAll Join DataPath filepathDir (Inr path) absDir items (runningSyncs st) fs
        = (BadRequest ''invalid path'', fs)"
    by (simp add: Remove_def assms(2))
  have 2: "map_of localPath path \<noteq> None \<and> scanOverlap (runningSyncs st) path \<longrightarrow>
      Remove RemoveAll Join DataPath filepathDir (Inr path) absDir items (runningSyncs st) fs
        = (Conflict ''sync in progress'', fs)"
    by (auto simp: Remove_def assms(2) remove_cases)
  have 3: "map_of localPath path \<noteq> None \<and> \<not> scanOverlap (runningSyncs st) path \<longrightarrow>
      Remove RemoveAll Join DataPath filepathDir (Inr path) absDir items (runningSyncs st) fs
        = (case fst (RemoveAll (Join DataPath path) fs) of
             None \<Rightarrow> OK
           | Some err \<Rightarrow> HandlerError (''remove path: remove all: '' @ err),
           snd (RemoveAll (Join DataPath path) fs))"
    by (auto simp: Remove_def assms(2) remove_cases split: option.splits)
  show ?thesis using 1 2 3 unfolding scan by blast
qed

theorem Remove_behaviour_witness:
  "reachable (snd (sync \<lparr>runningSyncs = [], tasks = []\<rparr> ''/a'') :: 64 word system) \<and>
   (\<exists>localPath h.
      buildLocalTree cleanDir (Inr ''/d'')
        [Entry ''/d'' True ''d'', Entry ''/d/a'' True ''a'', Entry ''/d/a/f'' False ''f'',
         Entry ''/d/c'' True ''c'']
        = Inr (localPath, h)) \<and>
   Remove (\<lambda>target fs. (None, filter (\<lambda>p. \<not> prefix target p) fs)) (\<lambda>a b. a @ b) ''/d'' cleanDir
     (Inr ''/x'') (Inr ''/d'')
     [Entry ''/d'' True ''d'', Entry ''/d/a'' True ''a'', Entry ''/d/a/f'' False ''f'',
      Entry ''/d/c'' True ''c'']
     (runningSyncs (snd (sync \<lparr>runningSyncs = [], tasks = []\<rparr> ''/a'') :: 64 word system))
     [''/d'', ''/d/a'', ''/d/a/f'', ''/d/c'']
     = (BadRequest ''invalid path'', [''/d'', ''/d/a'', ''/d/a/f'', ''/d/c'']) \<and>
   Remove (\<lambda>target fs. (None, filter (\<lambda>p. \<not> prefix target p) fs)) (\<lambda>a b. a @ b) ''/d'' cleanDir
     (Inr ''/a'') (Inr ''/d'')
     [Entry ''/d'' True ''d'', Entry ''/d/a'' True ''a'', Entry ''/d/a/f'' False ''f'',
      Entry ''/d/c'' True ''c'']
     (runningSyncs (snd (sync \<lparr>runningSyncs = [], tasks = []\<rparr> ''/a'') :: 64 word system))
     [''/d'', ''/d/a'', ''/d/a/f'', ''/d/c'']
     = (Conflict ''sync in progress'', [''/d'', ''/d/a'', ''/d/a/f'', ''/d/c'']) \<and>
   Remove (\<lambda>target fs. (None, filter (\<lambda>p. \<not> prefix target p) fs)) (\<lambda>a b. a @ b) ''/d'' cleanDir
     (Inr ''/c'') (Inr ''/d'')
     [Entry ''/d'' True ''d'', Entry ''/d/a'' True ''a'', Entry ''/d/a/f'' False ''f'',
      Entry ''/d/c'' True ''c'']
     (runningSyncs (snd (sync \<lparr>runningSyncs = [], tasks = []\<rparr> ''/a'') :: 64 word system))
     [''/d'', ''/d/a'', ''/d/a/f'', ''/d/c'']
     = (OK, [''/d'', ''/d/a'', ''/d/a/f''])"
proof -
  let ?st = "snd (sync \<lparr>runningSyncs = [], tasks = []\<rparr> ''/a'') :: 64 word system"
  let ?items = "[Entry ''/d'' True ''d'', Entry ''/d/a'' True ''a'', Entry ''/d/a/f'' False ''f'',
      Entry ''/d/c'' True ''c'']"
  let ?fs = "[''/d'', ''/d/a'', ''/d/a/f'', ''/d/c'']"
  let ?rm = "\<lambda>target fs :: string list. (None :: string option, filter (\<lambda>p. \<not> prefix target p) fs)"
  let ?join = "\<lambda>a b :: string. a @ b"
  let ?root = "Dir 0 ''/'' ''d'' None"
  let ?pm = "[(''/'', ?root), (''/a'', Dir 1 ''/a'' ''a'' (Some ?root)),
              (''/c'', Dir 2 ''/c'' ''c'' (Some ?root))]"
  let ?h = "[\<lparr>Children = [(''a'', Dir 1 ''/a'' ''a'' (Some ?root)),
                          (''c'', Dir 2 ''/c'' ''c'' (Some ?root))], Synced = False\<rparr>,
             \<lparr>Children = [], Synced = False\<rparr>, \<lparr>Children = [], Synced = False\<rparr>]"
  have r: "reachable ?st" by (rule reachable.start [OF reachable.init])
  have k: "keys (runningSyncs ?st) = {''/a''}" by (simp add: sync_def keys_def)
  have b: "buildLocalTree cleanDir (Inr ''/d'') ?items = Inr (?pm, ?h)"
    by code_simp
  have 1: "Remove ?rm ?join ''/d'' cleanDir (Inr ''/x'') (Inr ''/d'') ?items
      (runningSyncs ?st) ?fs = (BadRequest ''invalid path'', ?fs)"
    using Remove_behaviour [OF r b, of "''/x''" ?rm ?join "''/d''" ?fs] by simp
  have 2: "Remove ?rm ?join ''/d'' cleanDir (Inr ''/a'') (Inr ''/d'') ?items
      (runningSyncs ?st) ?fs = (Conflict ''sync in progress'', ?fs)"
    using Remove_behaviour [OF r b, of "''/a''" ?rm ?join "''/d''" ?fs] by (simp add: k)
  have 3: "Remove ?rm ?join ''/d'' cleanDir (Inr ''/c'') (Inr ''/d'') ?items
      (runningSyncs ?st) ?fs = (OK, [''/d'', ''/d/a'', ''/d/a/f''])"
    using Remove_behaviour [OF r b, of "''/c''" ?rm ?join "''/d''" ?fs] by (simp add: k)
  show ?thesis using r b 1 2 3 by (intro conjI exI)
qed

section \<open>The remote tree: propagation to ancestors\<close>

lemma update_fresh: "k \<notin> keys al \<Longrightarrow> AList.update k v al = al @ [(k, v)]"
  by (induction al) (auto simp: keys_def)

lemma Synced_children_update:
  "i < length xs \<Longrightarrow> Synced (xs[a := (xs ! a)\<lparr>Children := c\<rparr>] ! i) = Synced (xs ! i)"
  by (cases "a = i") simp_all

lemma addItem_fresh:
  assumes "path \<notin> keys pathMap"
  shows "fst (addItem path name parent synced (pathMap, h))
           = pathMap @ [(path, Dir (length h) path name parent)]"
    and "length (snd (addItem path name parent synced (pathMap, h))) = Suc (length h)"
    and "\<forall>i < Suc (length h).
           Synced (snd (addItem path name parent synced (pathMap, h)) ! i)
             = (if i < length h then Synced (h ! i) else synced)"
proof -
  show "fst (addItem path name parent synced (pathMap, h))
           = pathMap @ [(path, Dir (length h) path name parent)]"
    using assms by (simp add: fst_addItem update_fresh)
  show "length (snd (addItem path name parent synced (pathMap, h))) = Suc (length h)"
    by (simp add: addItem_def Let_def split: option.splits)
  show "\<forall>i < Suc (length h).
           Synced (snd (addItem path name parent synced (pathMap, h)) ! i)
             = (if i < length h then Synced (h ! i) else synced)"
  proof (intro allI impI)
    fix i assume i: "i < Suc (length h)"
    let ?h1 = "h @ [\<lparr>Children = [], Synced = synced\<rparr>]"
    have i1: "i < length ?h1" using i by simp
    have "Synced (snd (addItem path name parent synced (pathMap, h)) ! i) = Synced (?h1 ! i)"
    proof (cases parent)
      case None
      then show ?thesis by (simp add: addItem_def Let_def)
    next
      case (Some p)
      have "snd (addItem path name parent synced (pathMap, h)) =
          ?h1[addr p := (?h1 ! addr p)\<lparr>Children :=
                AList.update name (Dir (length h) path name parent) (Children (?h1 ! addr p))\<rparr>]"
        by (simp add: addItem_def Let_def Some)
      then show ?thesis by (simp only: Synced_children_update [OF i1])
    qed
    also have "\<dots> = (if i < length h then Synced (h ! i) else synced)"
      using i by (auto simp: nth_append less_Suc_eq)
    finally show "Synced (snd (addItem path name parent synced (pathMap, h)) ! i)
        = (if i < length h then Synced (h ! i) else synced)" .
  qed
qed

lemma treeInv_addItem:
  assumes inv: "treeInv filepathDir (pathMap, h)"
    and fresh: "path \<notin> keys pathMap"
    and later: "\<forall>p \<in> keys pathMap. filepathDir p \<noteq> path"
  shows "treeInv filepathDir
           (addItem path name (map_of pathMap (filepathDir path)) synced (pathMap, h))"
proof -
  let ?item = "Dir (length h) path name (map_of pathMap (filepathDir path))"
  let ?pm = "pathMap @ [(path, ?item)]"
  let ?st = "addItem path name (map_of pathMap (filepathDir path)) synced (pathMap, h)"
  have d: "distinct (map fst pathMap)" and l: "length h = length pathMap"
    using inv by (simp_all add: treeInv_def)
  have old: "\<And>i. i < length pathMap \<Longrightarrow>
      addr (snd (pathMap ! i)) = i \<and> Dir.Path (snd (pathMap ! i)) = fst (pathMap ! i) \<and>
      Parent (snd (pathMap ! i)) =
        (if filepathDir (fst (pathMap ! i)) = fst (pathMap ! i) then None
         else map_of pathMap (filepathDir (fst (pathMap ! i))))"
    using inv by (simp add: treeInv_def)
  have f: "fst ?st = ?pm" using addItem_fresh(1) [OF fresh] by simp
  have n: "length (snd ?st) = Suc (length h)" using addItem_fresh(2) [OF fresh] by simp
  have lookup: "map_of ?pm k = map_of pathMap k" if "k \<noteq> path" for k
    using that by (simp add: map_add_def split: option.splits)
  have none: "map_of pathMap path = None"
    using fresh by (simp add: map_of_None_keys)
  have 1: "distinct (map fst ?pm)" using d fresh by (simp add: keys_def)
  have 2: "length (snd ?st) = length ?pm" using n l by simp
  have 3: "addr (snd (?pm ! i)) = i \<and> Dir.Path (snd (?pm ! i)) = fst (?pm ! i) \<and>
      Parent (snd (?pm ! i)) =
        (if filepathDir (fst (?pm ! i)) = fst (?pm ! i) then None
         else map_of ?pm (filepathDir (fst (?pm ! i))))" if "i < length ?pm" for i
  proof (cases "i < length pathMap")
    case True
    then have e: "?pm ! i = pathMap ! i" by (simp add: nth_append)
    have "fst (pathMap ! i) \<in> keys pathMap" using True by (simp add: keys_def)
    then have "filepathDir (fst (pathMap ! i)) \<noteq> path" using later by blast
    then show ?thesis using old [OF True] by (simp add: e lookup del: map_of_append)
  next
    case False
    then have i: "i = length pathMap" using that by simp
    then have e: "?pm ! i = (path, ?item)" by simp
    have "map_of ?pm (filepathDir path) = map_of pathMap (filepathDir path)"
      if "filepathDir path \<noteq> path"
      using that by (rule lookup)
    then show ?thesis
      using none l by (simp add: e i del: map_of_append)
  qed
  show ?thesis
    unfolding treeInv_def using 1 2 3 by (cases ?st) (simp add: f [symmetric] del: length_append)
qed


lemma scanLines_treeInv:
  assumes "parentBeforeChild filepathDir rest"
    and "treeInv filepathDir st"
    and "\<forall>p \<in> keys (fst st). p \<notin> set rest \<and> filepathDir p \<notin> set rest"
    and "\<forall>i < length (snd st). Synced (snd st ! i)"
  shows "treeInv filepathDir (scanLines filepathDir filepathBase rest st) \<and>
         (\<forall>i < length (snd (scanLines filepathDir filepathBase rest st)).
            Synced (snd (scanLines filepathDir filepathBase rest st) ! i))"
  using assms
proof (induction rest arbitrary: st)
  case Nil
  then show ?case by simp
next
  case (Cons path rest)
  obtain pathMap h where st: "st = (pathMap, h)" by (cases st)
  let ?st' = "addItem path (filepathBase path) (map_of pathMap (filepathDir path)) True (pathMap, h)"
  have fresh: "path \<notin> keys pathMap" using Cons.prems(3) st by auto
  have later: "\<forall>p \<in> keys pathMap. filepathDir p \<noteq> path" using Cons.prems(3) st by auto
  have inv': "treeInv filepathDir ?st'"
    using Cons.prems(2) fresh later unfolding st by (rule treeInv_addItem)
  have k: "keys (fst ?st') = insert path (keys pathMap)"
    by (simp add: fst_addItem keys_update)
  have fut: "\<forall>p \<in> keys (fst ?st'). p \<notin> set rest \<and> filepathDir p \<notin> set rest"
    using Cons.prems(1,3) st by (auto simp: k)
  have syn: "\<forall>i < length (snd ?st'). Synced (snd ?st' ! i)"
    using addItem_fresh(2,3) [OF fresh, where name = "filepathBase path"
        and parent = "map_of pathMap (filepathDir path)" and synced = True and h = h]
      Cons.prems(4) st by simp
  have pbc: "parentBeforeChild filepathDir rest" using Cons.prems(1) by simp
  show ?case
    using Cons.IH [OF pbc inv' fut syn] by (simp add: st)
qed

lemma treeInv_lookup:
  assumes "treeInv filepathDir (pathMap, h)" and "map_of pathMap q = Some d"
  shows "Dir.Path d = q \<and> addr d < length h \<and> pathMap ! addr d = (q, d) \<and>
         Parent d = (if filepathDir q = q then None else map_of pathMap (filepathDir q))"
proof -
  have "(q, d) \<in> set pathMap" using assms(2) by (rule map_of_SomeD)
  then obtain i where i: "i < length pathMap" "pathMap ! i = (q, d)"
    by (auto simp: in_set_conv_nth)
  have "addr (snd (pathMap ! i)) = i \<and> Dir.Path (snd (pathMap ! i)) = fst (pathMap ! i) \<and>
      Parent (snd (pathMap ! i)) =
        (if filepathDir (fst (pathMap ! i)) = fst (pathMap ! i) then None
         else map_of pathMap (filepathDir (fst (pathMap ! i))))"
    and "length h = length pathMap"
    using assms(1) i(1) by (simp_all add: treeInv_def)
  then show ?thesis using i by simp
qed

lemma onChain_unfold:
  "onChain filepathDir listed q p \<longleftrightarrow>
     p = q \<or> (filepathDir q \<in> listed \<and> filepathDir q \<noteq> q \<and>
              onChain filepathDir listed (filepathDir q) p)"
  by (subst onChain.simps) auto

lemma chainDirs_char:
  assumes "treeInv filepathDir (pathMap, h)"
  shows "map_of pathMap q = Some d \<Longrightarrow>
     set (chainDirs d) =
       {d'. \<exists>p. onChain filepathDir (keys pathMap) q p \<and> map_of pathMap p = Some d'}"
proof (induction d arbitrary: q)
  case (Dir a path name parent)
  let ?d = "Dir a path name parent"
  have par: "parent = (if filepathDir q = q then None else map_of pathMap (filepathDir q))"
    using treeInv_lookup [OF assms Dir.prems] by simp
  show ?case
  proof (cases parent)
    case None
    then have stop: "\<not> (filepathDir q \<in> keys pathMap \<and> filepathDir q \<noteq> q)"
      using par by (auto simp: map_of_None_keys split: if_splits)
    have "onChain filepathDir (keys pathMap) q p \<longleftrightarrow> p = q" for p
      using stop by (subst onChain_unfold) blast
    then show ?thesis using None Dir.prems by auto
  next
    case (Some d0)
    then have up: "filepathDir q \<noteq> q" "map_of pathMap (filepathDir q) = Some d0"
      using par by (auto split: if_splits)
    then have inl: "filepathDir q \<in> keys pathMap"
      using map_of_None_keys [of pathMap "filepathDir q"] by auto
    have ih: "set (chainDirs d0) =
        {d'. \<exists>p. onChain filepathDir (keys pathMap) (filepathDir q) p \<and> map_of pathMap p = Some d'}"
      using Dir.IH [of d0 "filepathDir q"] Some up(2) by simp
    have unf: "onChain filepathDir (keys pathMap) q p \<longleftrightarrow>
        p = q \<or> onChain filepathDir (keys pathMap) (filepathDir q) p" for p
      using up(1) inl by (subst onChain_unfold) blast
    have "set (chainDirs ?d) = insert ?d (set (chainDirs d0))" using Some by simp
    also have "\<dots> = {d'. \<exists>p. onChain filepathDir (keys pathMap) q p \<and> map_of pathMap p = Some d'}"
      unfolding ih unf using Dir.prems by auto
    finally show ?thesis .
  qed
qed

lemma setNotSynced_length [simp]: "length (setNotSynced d h) = length h"
  by (induction d h rule: setNotSynced.induct) (simp add: Let_def split: option.splits)

lemma setNotSynced_Synced:
  "i < length h \<Longrightarrow>
     Synced (setNotSynced d h ! i) = (Synced (h ! i) \<and> i \<notin> addr ` set (chainDirs d))"
proof (induction d h rule: setNotSynced.induct)
  case (1 a path name parent h)
  let ?h' = "h[a := (h ! a)\<lparr>Synced := False\<rparr>]"
  have here: "Synced (?h' ! i) = (Synced (h ! i) \<and> i \<noteq> a)"
    using "1.prems" by (cases "i = a") simp_all
  show ?case
  proof (cases parent)
    case None
    then show ?thesis using here by (simp add: Let_def)
  next
    case (Some p)
    have "Synced (setNotSynced p ?h' ! i) = (Synced (?h' ! i) \<and> i \<notin> addr ` set (chainDirs p))"
      using "1.IH" [OF refl Some] "1.prems" by simp
    then show ?thesis using here Some by (simp add: Let_def)
  qed
qed

lemma rangeNotSynced_length [simp]: "length (rangeNotSynced localPathMap entries h) = length h"
  by (induction localPathMap entries h rule: rangeNotSynced.induct) simp_all

lemma rangeNotSynced_Synced:
  "i < length h \<Longrightarrow>
     Synced (rangeNotSynced localPathMap entries h ! i) =
       (Synced (h ! i) \<and>
        \<not> (\<exists>(path, item) \<in> set entries.
              map_of localPathMap path = None \<and> i \<in> addr ` set (chainDirs item)))"
proof (induction localPathMap entries h rule: rangeNotSynced.induct)
  case (1 localPathMap h)
  then show ?case by simp
next
  case (2 localPathMap path item rest h)
  let ?h' = "if map_of localPathMap path = None then setNotSynced item h else h"
  have "i < length ?h'" using "2.prems" by simp
  then have "Synced (rangeNotSynced localPathMap rest ?h' ! i) =
       (Synced (?h' ! i) \<and>
        \<not> (\<exists>(path, item) \<in> set rest.
              map_of localPathMap path = None \<and> i \<in> addr ` set (chainDirs item)))"
    by (rule "2.IH")
  moreover have "Synced (?h' ! i) =
      (Synced (h ! i) \<and> \<not> (map_of localPathMap path = None \<and> i \<in> addr ` set (chainDirs item)))"
    using "2.prems" by (simp add: setNotSynced_Synced)
  ultimately show ?case by auto
qed


lemma treeInv_empty: "treeInv filepathDir ([], [])"
  by (simp add: treeInv_def)

lemma scanLines_result:
  assumes "parentBeforeChild filepathDir lines"
    and "scanLines filepathDir filepathBase lines ([], []) = (pathMap, h)"
  shows "treeInv filepathDir (pathMap, h)" and "keys pathMap = set lines"
    and "\<forall>i < length h. Synced (h ! i)"
proof -
  have "treeInv filepathDir (scanLines filepathDir filepathBase lines ([], [])) \<and>
         (\<forall>i < length (snd (scanLines filepathDir filepathBase lines ([], []))).
            Synced (snd (scanLines filepathDir filepathBase lines ([], [])) ! i))"
    by (rule scanLines_treeInv [OF assms(1) treeInv_empty]) (simp_all add: keys_def)
  then show "treeInv filepathDir (pathMap, h)" and "\<forall>i < length h. Synced (h ! i)"
    by (simp_all add: assms(2))
  show "keys pathMap = set lines"
    using keys_scanLines [of filepathDir filepathBase lines "([], [])"]
    by (simp add: assms(2) keys_def)
qed

lemma marked_iff_onChain:
  assumes inv: "treeInv filepathDir (pathMap, h)"
    and item: "map_of pathMap p = Some item"
  shows "(\<exists>(q, d) \<in> set pathMap.
            map_of localPathMap q = None \<and> addr item \<in> addr ` set (chainDirs d)) \<longleftrightarrow>
         (\<exists>q \<in> keys pathMap.
            map_of localPathMap q = None \<and> onChain filepathDir (keys pathMap) q p)"
proof
  assume "\<exists>(q, d) \<in> set pathMap.
      map_of localPathMap q = None \<and> addr item \<in> addr ` set (chainDirs d)"
  then obtain q d d' where q: "(q, d) \<in> set pathMap" "map_of localPathMap q = None"
    and d': "d' \<in> set (chainDirs d)" "addr item = addr d'"
    by auto
  have dist: "distinct (map fst pathMap)" using inv by (simp add: treeInv_def)
  have qd: "map_of pathMap q = Some d" using dist q(1) by simp
  obtain p' where p': "onChain filepathDir (keys pathMap) q p'" "map_of pathMap p' = Some d'"
    using chainDirs_char [OF inv qd] d'(1) by auto
  have "pathMap ! addr d' = (p', d')" using treeInv_lookup [OF inv p'(2)] by simp
  moreover have "pathMap ! addr item = (p, item)" using treeInv_lookup [OF inv item] by simp
  ultimately have "p' = p" using d'(2) by simp
  moreover have "q \<in> keys pathMap" using q(1) by (force simp: keys_def)
  ultimately show "\<exists>q \<in> keys pathMap.
      map_of localPathMap q = None \<and> onChain filepathDir (keys pathMap) q p"
    using q(2) p'(1) by blast
next
  assume "\<exists>q \<in> keys pathMap.
      map_of localPathMap q = None \<and> onChain filepathDir (keys pathMap) q p"
  then obtain q where q: "q \<in> keys pathMap" "map_of localPathMap q = None"
    "onChain filepathDir (keys pathMap) q p"
    by blast
  obtain d where qd: "map_of pathMap q = Some d"
    using q(1) map_of_None_keys [of pathMap q] by auto
  have "item \<in> set (chainDirs d)"
    using chainDirs_char [OF inv qd] q(3) item by auto
  moreover have "(q, d) \<in> set pathMap" using qd by (rule map_of_SomeD)
  ultimately show "\<exists>(q, d) \<in> set pathMap.
      map_of localPathMap q = None \<and> addr item \<in> addr ` set (chainDirs d)"
    using q(2) by blast
qed

text \<open>
  Claim C2, amended. For a parent-before-child listing \<open>buildRemoteTree\<close> returns a map
  whose keys are the lines, and the directory listed under \<open>p\<close> ends with
  \<open>Synced = false\<close> exactly when \<open>p\<close> is absent from the local map or lies on the chain
  of parents of a listed path that is absent; every other directory keeps \<open>true\<close>.
\<close>

theorem buildRemoteTree_propagation:
  assumes "parentBeforeChild filepathDir lines"
  shows "\<exists>pathMap h.
     buildRemoteTree filepathDir filepathBase (Ran lines None) localPathMap = Inr (pathMap, h) \<and>
     keys pathMap = set lines \<and>
     (\<forall>p \<in> set lines. \<exists>item.
        map_of pathMap p = Some item \<and> Dir.Path item = p \<and> addr item < length h \<and>
        Synced (h ! addr item) =
          (\<not> (\<exists>q \<in> set lines. map_of localPathMap q = None \<and>
                  onChain filepathDir (set lines) q p)))"
proof -
  obtain pathMap h where s: "scanLines filepathDir filepathBase lines ([], []) = (pathMap, h)"
    by (cases "scanLines filepathDir filepathBase lines ([], [])") auto
  note inv = scanLines_result(1) [OF assms s]
  note k = scanLines_result(2) [OF assms s]
  note syn = scanLines_result(3) [OF assms s]
  let ?h = "rangeNotSynced localPathMap pathMap h"
  have b: "buildRemoteTree filepathDir filepathBase (Ran lines None) localPathMap
      = Inr (pathMap, ?h)"
    by (simp add: buildRemoteTree_def s)
  have "\<exists>item. map_of pathMap p = Some item \<and> Dir.Path item = p \<and> addr item < length ?h \<and>
        Synced (?h ! addr item) =
          (\<not> (\<exists>q \<in> set lines. map_of localPathMap q = None \<and>
                  onChain filepathDir (set lines) q p))"
    if p: "p \<in> set lines" for p
  proof -
    obtain item where item: "map_of pathMap p = Some item"
      using p k map_of_None_keys [of pathMap p] by auto
    have l: "Dir.Path item = p" "addr item < length h"
      using treeInv_lookup [OF inv item] by simp_all
    have "Synced (?h ! addr item) =
        (Synced (h ! addr item) \<and>
         \<not> (\<exists>(q, d) \<in> set pathMap.
              map_of localPathMap q = None \<and> addr item \<in> addr ` set (chainDirs d)))"
      using l(2) by (rule rangeNotSynced_Synced)
    also have "\<dots> = (\<not> (\<exists>q \<in> keys pathMap.
        map_of localPathMap q = None \<and> onChain filepathDir (keys pathMap) q p))"
      using syn l(2) marked_iff_onChain [OF inv item, of localPathMap] by simp
    finally show ?thesis using item l by (simp add: k)
  qed
  then show ?thesis using b k by auto
qed

text \<open>
  Claim C2, as stated, fails on its own example: for the remote tree \<open>/a\<close>, \<open>/a/b\<close>,
  \<open>/a/b/c\<close> and the local paths \<open>/a\<close>, \<open>/a/b\<close> all three directories end unsynced,
  \<open>/a\<close> and \<open>/a/b\<close> being ancestors of the missing \<open>/a/b/c\<close>.
\<close>

theorem buildRemoteTree_example_counterexample:
  "buildRemoteTree cleanDir cleanBase (Ran [''/a'', ''/a/b'', ''/a/b/c''] None)
     [(''/a'', Dir 0 ''/a'' ''a'' None), (''/a/b'', Dir 1 ''/a/b'' ''b'' (Some (Dir 0 ''/a'' ''a'' None)))]
   = Inr ([(''/a'', Dir 0 ''/a'' ''a'' None),
           (''/a/b'', Dir 1 ''/a/b'' ''b'' (Some (Dir 0 ''/a'' ''a'' None))),
           (''/a/b/c'', Dir 2 ''/a/b/c'' ''c''
              (Some (Dir 1 ''/a/b'' ''b'' (Some (Dir 0 ''/a'' ''a'' None)))))],
          [\<lparr>Children = [(''b'', Dir 1 ''/a/b'' ''b'' (Some (Dir 0 ''/a'' ''a'' None)))],
            Synced = False\<rparr>,
           \<lparr>Children = [(''c'', Dir 2 ''/a/b/c'' ''c''
              (Some (Dir 1 ''/a/b'' ''b'' (Some (Dir 0 ''/a'' ''a'' None)))))],
            Synced = False\<rparr>,
           \<lparr>Children = [], Synced = False\<rparr>])"
  by code_simp


theorem buildRemoteTree_propagation_witness:
  "parentBeforeChild cleanDir [''/a'', ''/a/b'', ''/c''] \<and>
   (\<exists>pathMap h.
      buildRemoteTree cleanDir cleanBase (Ran [''/a'', ''/a/b'', ''/c''] None)
        [(''/a'', Dir 0 ''/a'' ''a'' None), (''/c'', Dir 1 ''/c'' ''c'' None)] = Inr (pathMap, h) \<and>
      (\<exists>item. map_of pathMap ''/c'' = Some item \<and> Synced (h ! addr item)) \<and>
      (\<exists>item. map_of pathMap ''/a/b'' = Some item \<and> \<not> Synced (h ! addr item)) \<and>
      (\<exists>item. map_of pathMap ''/a'' = Some item \<and> \<not> Synced (h ! addr item)))"
proof -
  let ?L = "[''/a'', ''/a/b'', ''/c'']"
  let ?local = "[(''/a'', Dir 0 ''/a'' ''a'' None), (''/c'', Dir 1 ''/c'' ''c'' None)]"
  have cd: "cleanDir ''/a/b'' = ''/a''" "cleanDir ''/a'' = ''/''" "cleanDir ''/c'' = ''/''"
    by (simp_all add: cleanDir_def)
  have pbc: "parentBeforeChild cleanDir ?L" by (simp add: cd)
  have n1: "\<not> onChain cleanDir (set ?L) ''/a'' ''/c''"
    by (subst onChain_unfold) (simp add: cd)
  have n2: "\<not> onChain cleanDir (set ?L) ''/a/b'' ''/c''"
    using n1 by (subst onChain_unfold) (simp add: cd)
  have y1: "onChain cleanDir (set ?L) ''/a/b'' ''/a/b''" by (rule onChain.self)
  have y2: "onChain cleanDir (set ?L) ''/a/b'' ''/a''"
    by (rule onChain.up) (simp_all add: cd onChain.self)
  have absent: "map_of ?local ''/a/b'' = None" by simp
  have only: "map_of ?local q = None \<longleftrightarrow> q = ''/a/b''" if "q \<in> set ?L" for q
    using that by auto
  obtain pathMap h where
    b: "buildRemoteTree cleanDir cleanBase (Ran ?L None) ?local = Inr (pathMap, h)"
    and a: "\<forall>p \<in> set ?L. \<exists>item.
        map_of pathMap p = Some item \<and> Dir.Path item = p \<and> addr item < length h \<and>
        Synced (h ! addr item) =
          (\<not> (\<exists>q \<in> set ?L. map_of ?local q = None \<and> onChain cleanDir (set ?L) q p))"
    using buildRemoteTree_propagation [OF pbc, of cleanBase ?local] by blast
  have c: "\<not> (\<exists>q \<in> set ?L. map_of ?local q = None \<and> onChain cleanDir (set ?L) q ''/c'')"
    using only n2 by blast
  have ab: "\<exists>q \<in> set ?L. map_of ?local q = None \<and> onChain cleanDir (set ?L) q ''/a/b''"
    using absent y1 by (intro bexI [of _ "''/a/b''"]) simp_all
  have aa: "\<exists>q \<in> set ?L. map_of ?local q = None \<and> onChain cleanDir (set ?L) q ''/a''"
    using absent y2 by (intro bexI [of _ "''/a/b''"]) simp_all
  have 1: "\<exists>item. map_of pathMap ''/c'' = Some item \<and> Synced (h ! addr item)"
    using a [rule_format, of "''/c''"] c by auto
  have 2: "\<exists>item. map_of pathMap ''/a/b'' = Some item \<and> \<not> Synced (h ! addr item)"
    using a [rule_format, of "''/a/b''"] ab by auto
  have 3: "\<exists>item. map_of pathMap ''/a'' = Some item \<and> \<not> Synced (h ! addr item)"
    using a [rule_format, of "''/a''"] aa by auto
  show ?thesis using pbc b 1 2 3 by blast
qed

section \<open>The order in which Go enumerates a map\<close>

text \<open>
  \<open>range\<close> over a map visits the entries in no fixed order. The loops above run in the
  order of the association list; their results are the same in any other order.
\<close>

lemma scanOverlap_order:
  "set data' = set data \<Longrightarrow> scanOverlap data' path = scanOverlap data path"
  by (simp add: scanOverlap_iff)

lemma setNotSynced_Children:
  "i < length h \<Longrightarrow> Children (setNotSynced d h ! i) = Children (h ! i)"
proof (induction d h rule: setNotSynced.induct)
  case (1 a path name parent h)
  let ?h' = "h[a := (h ! a)\<lparr>Synced := False\<rparr>]"
  have here: "Children (?h' ! i) = Children (h ! i)"
    using "1.prems" by (cases "i = a") simp_all
  show ?case
  proof (cases parent)
    case None
    then show ?thesis using here by (simp add: Let_def)
  next
    case (Some p)
    have "Children (setNotSynced p ?h' ! i) = Children (?h' ! i)"
      using "1.IH" [OF refl Some] "1.prems" by simp
    then show ?thesis using here Some by (simp add: Let_def)
  qed
qed

lemma rangeNotSynced_Children:
  "i < length h \<Longrightarrow> Children (rangeNotSynced localPathMap entries h ! i) = Children (h ! i)"
  by (induction localPathMap entries h rule: rangeNotSynced.induct)
     (simp_all add: setNotSynced_Children)

lemma rangeNotSynced_any_order:
  assumes "set entries' = set entries"
  shows "rangeNotSynced localPathMap entries' h = rangeNotSynced localPathMap entries h"
proof (rule nth_equalityI)
  show "length (rangeNotSynced localPathMap entries' h)
      = length (rangeNotSynced localPathMap entries h)"
    by simp
next
  fix i assume "i < length (rangeNotSynced localPathMap entries' h)"
  then have i: "i < length h" by simp
  have "Synced (rangeNotSynced localPathMap entries' h ! i)
      = Synced (rangeNotSynced localPathMap entries h ! i)"
    using assms i by (simp add: rangeNotSynced_Synced)
  moreover have "Children (rangeNotSynced localPathMap entries' h ! i)
      = Children (rangeNotSynced localPathMap entries h ! i)"
    using i by (simp add: rangeNotSynced_Children)
  ultimately show "rangeNotSynced localPathMap entries' h ! i
      = rangeNotSynced localPathMap entries h ! i"
    by simp
qed

end
